theory Spec2Isabelle
  imports Complex_Main "HOL-Library.Word" "HOL-Library.Sublist"
begin

section \<open>Strings\<close>

text \<open>
  A JavaScript string is a sequence of UTF-16 code units; \<open>length\<close>, indexing and
  the regular expressions of \<open>calculate\<close> (none has the \<open>u\<close> flag) all work on code
  units. \<open>ascii\<close> writes an ASCII literal as such a string.
\<close>

type_synonym code_unit = "16 word"
type_synonym jsstring = "code_unit list"

definition ascii :: "string \<Rightarrow> jsstring" where
  "ascii = map of_char"

text \<open>The class \<open>\s\<close> of a JavaScript regular expression: WhiteSpace and LineTerminator.\<close>

definition isWhiteSpace :: "code_unit \<Rightarrow> bool" where
  "isWhiteSpace c \<longleftrightarrow>
     (0x09 \<le> c \<and> c \<le> 0x0D) \<or> c = 0x20 \<or> c = 0xA0 \<or> c = 0x1680 \<or>
     (0x2000 \<le> c \<and> c \<le> 0x200A) \<or> c = 0x2028 \<or> c = 0x2029 \<or> c = 0x202F \<or>
     c = 0x205F \<or> c = 0x3000 \<or> c = 0xFEFF"

text \<open>\<open>expression.replace(/\s+/g, '')\<close>\<close>

definition sanitize :: "jsstring \<Rightarrow> jsstring" where
  "sanitize expression = filter (\<lambda>c. \<not> isWhiteSpace c) expression"

definition isDigit :: "code_unit \<Rightarrow> bool" where
  "isDigit c \<longleftrightarrow> of_char CHR ''0'' \<le> c \<and> c \<le> of_char CHR ''9''"

text \<open>The character class \<open>[0-9+\-*/().]\<close>.\<close>

definition allowedChar :: "code_unit \<Rightarrow> bool" where
  "allowedChar c \<longleftrightarrow>
     isDigit c \<or> c = of_char CHR ''+'' \<or> c = of_char CHR ''-'' \<or> c = of_char CHR ''*'' \<or>
     c = of_char CHR ''/'' \<or> c = of_char CHR ''('' \<or> c = of_char CHR '')'' \<or>
     c = of_char CHR ''.''"

text \<open>\<open>/^[0-9+\-*/().]+$/.test(s)\<close>: one or more characters, all of the class.\<close>

definition validChars :: "jsstring \<Rightarrow> bool" where
  "validChars s \<longleftrightarrow> s \<noteq> [] \<and> list_all allowedChar s"

text \<open>
  \<open>/\/\s*0/.test(s)\<close>: somewhere a slash, then any white space, then the digit 0.
  As \<open>0\<close> is no white space, the greedy \<open>\s*\<close> never has to give characters back.
\<close>

fun slashZero :: "jsstring \<Rightarrow> bool" where
  "slashZero [] = False"
| "slashZero (c # cs) =
     ((c = of_char CHR ''/'' \<and>
       (case dropWhile isWhiteSpace cs of [] \<Rightarrow> False | d # _ \<Rightarrow> d = of_char CHR ''0''))
      \<or> slashZero cs)"

section \<open>Numbers\<close>

text \<open>
  The type \<open>number\<close> of JavaScript is IEEE 754 binary64. A value is NaN, an infinity
  (\<open>True\<close> is the negative sign) or a finite value given by its sign and its magnitude,
  so that both zeros exist. Every operation computes the exact rational result and
  rounds it to the nearest representable magnitude, ties to the even significand.
\<close>

datatype number = NaN | Infinity bool | Finite bool rat

text \<open>The number of binary digits of a positive integer.\<close>

function bitlen :: "int \<Rightarrow> int" where
  "bitlen n = (if n \<le> 0 then 0 else 1 + bitlen (n div 2))"
  by pat_completeness auto
termination
  by (relation "measure nat") auto

declare bitlen.simps [simp del]

text \<open>\<open>binade q\<close> is the integer \<open>e\<close> with \<open>2^e \<le> q < 2^(e+1)\<close>, for \<open>q > 0\<close>.\<close>

definition binade :: "rat \<Rightarrow> int" where
  "binade q =
     (if 1 \<le> q then bitlen \<lfloor>q\<rfloor> - 1 else - bitlen (\<lceil>1 / q\<rceil> - 1))"

definition roundHalfEven :: "rat \<Rightarrow> int" where
  "roundHalfEven r =
     (let f = \<lfloor>r\<rfloor>; d = r - of_int f
      in if d < 1 / 2 then f else if 1 / 2 < d then f + 1 else if even f then f else f + 1)"

text \<open>
  Rounding a magnitude \<open>q \<ge> 0\<close> to binary64: 53 significant bits, the least exponent
  of the last place is \<open>-1074\<close> (subnormals), and a rounded magnitude of \<open>2^1024\<close>
  or more is an infinity.
\<close>

definition fround :: "bool \<Rightarrow> rat \<Rightarrow> number" where
  "fround sign q =
     (if q = 0 then Finite sign 0
      else let ex = max (binade q - 52) (- 1074);
               r = of_int (roundHalfEven (q / 2 powi ex)) * 2 powi ex
           in if 2 ^ 1024 \<le> r then Infinity sign else Finite sign r)"

text \<open>The signed rational a finite number stands for, and rounding a signed rational.\<close>

fun valueOf :: "number \<Rightarrow> rat" where
  "valueOf (Finite sign q) = (if sign then - q else q)"
| "valueOf _ = 0"

definition froundSigned :: "rat \<Rightarrow> number" where
  "froundSigned r = fround (r < 0) \<bar>r\<bar>"

text \<open>
  \<open>x + y\<close>. An exact sum of zero is \<open>+0\<close>, except that \<open>-0 + -0\<close> is \<open>-0\<close>.
\<close>

fun add :: "number \<Rightarrow> number \<Rightarrow> number" where
  "add NaN _ = NaN"
| "add _ NaN = NaN"
| "add (Infinity s) (Infinity t) = (if s = t then Infinity s else NaN)"
| "add (Infinity s) (Finite _ _) = Infinity s"
| "add (Finite _ _) (Infinity t) = Infinity t"
| "add (Finite s p) (Finite t q) =
     (let r = valueOf (Finite s p) + valueOf (Finite t q)
      in if r = 0 then Finite (s \<and> t) 0 else froundSigned r)"

fun negate :: "number \<Rightarrow> number" where
  "negate NaN = NaN"
| "negate (Infinity s) = Infinity (\<not> s)"
| "negate (Finite s q) = Finite (\<not> s) q"

text \<open>\<open>x - y\<close> is \<open>x + (-y)\<close>.\<close>

definition sub :: "number \<Rightarrow> number \<Rightarrow> number" where
  "sub x y = add x (negate y)"

fun mul :: "number \<Rightarrow> number \<Rightarrow> number" where
  "mul NaN _ = NaN"
| "mul _ NaN = NaN"
| "mul (Infinity s) (Infinity t) = Infinity (s \<noteq> t)"
| "mul (Infinity s) (Finite t q) = (if q = 0 then NaN else Infinity (s \<noteq> t))"
| "mul (Finite s p) (Infinity t) = (if p = 0 then NaN else Infinity (s \<noteq> t))"
| "mul (Finite s p) (Finite t q) = fround (s \<noteq> t) (p * q)"

fun divide_number :: "number \<Rightarrow> number \<Rightarrow> number" where
  "divide_number NaN _ = NaN"
| "divide_number _ NaN = NaN"
| "divide_number (Infinity s) (Infinity t) = NaN"
| "divide_number (Infinity s) (Finite t q) = Infinity (s \<noteq> t)"
| "divide_number (Finite s p) (Infinity t) = Finite (s \<noteq> t) 0"
| "divide_number (Finite s p) (Finite t q) =
     (if q = 0 then (if p = 0 then NaN else Infinity (s \<noteq> t))
      else fround (s \<noteq> t) (p / q))"

text \<open>\<open>x === 0\<close>, \<open>isFinite(x)\<close> and \<open>Number.isInteger(x)\<close>.\<close>

fun isZero :: "number \<Rightarrow> bool" where
  "isZero (Finite _ q) = (q = 0)"
| "isZero _ = False"

fun isFinite :: "number \<Rightarrow> bool" where
  "isFinite (Finite _ _) = True"
| "isFinite _ = False"

fun isInteger :: "number \<Rightarrow> bool" where
  "isInteger (Finite _ q) = (of_int \<lfloor>q\<rfloor> = q)"
| "isInteger _ = False"

section \<open>Number literals\<close>

definition digitVal :: "code_unit \<Rightarrow> int" where
  "digitVal c = uint c - 48"

definition digitsValue :: "jsstring \<Rightarrow> int" where
  "digitsValue ds = foldl (\<lambda>a c. 10 * a + digitVal c) 0 ds"

text \<open>
  \<open>parseFloat(str)\<close> on the strings this program gives it, which hold only digits,
  \<open>.\<close> and a leading sign: the longest prefix that is a decimal literal (digits with
  an optional point and fraction, or a point and digits) is read and its value
  rounded to the nearest number; without such a prefix the result is NaN. (The
  language standard lets an engine replace the digits after the twentieth significant
  one by zeros; the engines round the whole literal, and so does the model.)
\<close>

definition parseFloat :: "jsstring \<Rightarrow> number" where
  "parseFloat str =
     (let (neg, t) =
            (case str of
               [] \<Rightarrow> (False, [])
             | c # cs \<Rightarrow>
                 if c = of_char CHR ''-'' then (True, cs)
                 else if c = of_char CHR ''+'' then (False, cs)
                 else (False, str));
          ip = takeWhile isDigit t;
          fp = (case dropWhile isDigit t of
                  [] \<Rightarrow> []
                | c # cs \<Rightarrow> if c = of_char CHR ''.'' then takeWhile isDigit cs else [])
      in if ip = [] \<and> fp = [] then NaN
         else fround neg
                (of_int (digitsValue ip) + of_int (digitsValue fp) / 10 ^ length fp))"

section \<open>The recursive-descent evaluator\<close>

text \<open>The four \<open>throw new Error(...)\<close> of \<open>evaluateExpression\<close>.\<close>

datatype error =
    DivisionByZero
  | MissingClosingParenthesis
  | ExpectedANumber
  | UnexpectedCharacter

text \<open>
  The closure variable \<open>pos\<close> is passed in and handed back with the value. The three
  \<open>while\<close> loops are the functions \<open>scanNumber\<close>, \<open>parseTerm_loop\<close> and
  \<open>parseExpression_loop\<close>. \<open>expression[pos]\<close> beyond the end is \<open>undefined\<close>, which
  equals no character.
\<close>

function scanNumber :: "jsstring \<Rightarrow> nat \<Rightarrow> nat" where
  "scanNumber expression pos =
     (if pos < length expression \<and>
         (isDigit (expression ! pos) \<or> expression ! pos = of_char CHR ''.'')
      then scanNumber expression (pos + 1)
      else pos)"
  by pat_completeness auto
termination
  by (relation "measure (\<lambda>(expression, pos). length expression - pos)") auto

declare scanNumber.simps [simp del]

definition substring :: "jsstring \<Rightarrow> nat \<Rightarrow> nat \<Rightarrow> jsstring" where
  "substring s start end = take (end - start) (drop start s)"

function parseExpression :: "jsstring \<Rightarrow> nat \<Rightarrow> error + number \<times> nat"
  and parseExpression_loop :: "jsstring \<Rightarrow> number \<Rightarrow> nat \<Rightarrow> error + number \<times> nat"
  and parseTerm :: "jsstring \<Rightarrow> nat \<Rightarrow> error + number \<times> nat"
  and parseTerm_loop :: "jsstring \<Rightarrow> number \<Rightarrow> nat \<Rightarrow> error + number \<times> nat"
  and parseFactor :: "jsstring \<Rightarrow> nat \<Rightarrow> error + number \<times> nat"
where
  "parseExpression expression pos =
     (case parseTerm expression pos of
        Inl e \<Rightarrow> Inl e
      | Inr (left, pos') \<Rightarrow> parseExpression_loop expression left pos')"
| "parseExpression_loop expression left pos =
     (if pos < length expression then
        if expression ! pos = of_char CHR ''+'' then
          (case parseTerm expression (pos + 1) of
             Inl e \<Rightarrow> Inl e
           | Inr (v, pos') \<Rightarrow> parseExpression_loop expression (add left v) pos')
        else if expression ! pos = of_char CHR ''-'' then
          (case parseTerm expression (pos + 1) of
             Inl e \<Rightarrow> Inl e
           | Inr (v, pos') \<Rightarrow> parseExpression_loop expression (sub left v) pos')
        else Inr (left, pos)
      else Inr (left, pos))"
| "parseTerm expression pos =
     (case parseFactor expression pos of
        Inl e \<Rightarrow> Inl e
      | Inr (left, pos') \<Rightarrow> parseTerm_loop expression left pos')"
| "parseTerm_loop expression left pos =
     (if pos < length expression then
        if expression ! pos = of_char CHR ''*'' then
          (case parseFactor expression (pos + 1) of
             Inl e \<Rightarrow> Inl e
           | Inr (v, pos') \<Rightarrow> parseTerm_loop expression (mul left v) pos')
        else if expression ! pos = of_char CHR ''/'' then
          (case parseFactor expression (pos + 1) of
             Inl e \<Rightarrow> Inl e
           | Inr (divisor, pos') \<Rightarrow>
               if isZero divisor then Inl DivisionByZero
               else parseTerm_loop expression (divide_number left divisor) pos')
        else Inr (left, pos)
      else Inr (left, pos))"
| "parseFactor expression pos =
     (if pos < length expression \<and> expression ! pos = of_char CHR ''('' then
        (case parseExpression expression (pos + 1) of
           Inl e \<Rightarrow> Inl e
         | Inr (result, pos') \<Rightarrow>
             if pos' < length expression \<and> expression ! pos' = of_char CHR '')''
             then Inr (result, pos' + 1)
             else Inl MissingClosingParenthesis)
      else
        (let start = pos; pos' = scanNumber expression pos
         in if start = pos' then Inl ExpectedANumber
            else Inr (parseFloat (substring expression start pos'), pos')))"
  by pat_completeness auto

text \<open>
  \<open>parseFactor\<close> calls \<open>parseExpression\<close> on what the loops return, so termination
  needs that no rule hands back a cursor to the left of the one it was given.
\<close>

lemma scanNumber_ge: "pos \<le> scanNumber expression pos"
  by (induction expression pos rule: scanNumber.induct) (subst scanNumber.simps, auto)

lemma parse_pos_mono:
  "parseExpression_parseExpression_loop_parseTerm_parseTerm_loop_parseFactor_dom (Inl (Inl (s, p)))
     \<Longrightarrow> (\<forall>v p'. parseExpression s p = Inr (v, p') \<longrightarrow> p \<le> p')"
  "parseExpression_parseExpression_loop_parseTerm_parseTerm_loop_parseFactor_dom (Inl (Inr (s1, l1, p1)))
     \<Longrightarrow> (\<forall>v p'. parseExpression_loop s1 l1 p1 = Inr (v, p') \<longrightarrow> p1 \<le> p')"
  "parseExpression_parseExpression_loop_parseTerm_parseTerm_loop_parseFactor_dom (Inr (Inl (s2, p2)))
     \<Longrightarrow> (\<forall>v p'. parseTerm s2 p2 = Inr (v, p') \<longrightarrow> p2 \<le> p')"
  "parseExpression_parseExpression_loop_parseTerm_parseTerm_loop_parseFactor_dom (Inr (Inr (Inl (s3, l3, p3))))
     \<Longrightarrow> (\<forall>v p'. parseTerm_loop s3 l3 p3 = Inr (v, p') \<longrightarrow> p3 \<le> p')"
  "parseExpression_parseExpression_loop_parseTerm_parseTerm_loop_parseFactor_dom (Inr (Inr (Inr (s4, p4))))
     \<Longrightarrow> (\<forall>v p'. parseFactor s4 p4 = Inr (v, p') \<longrightarrow> p4 \<le> p')"
proof (induction s p and s1 l1 p1 and s2 p2 and s3 l3 p3 and s4 p4
    rule: parseExpression_parseExpression_loop_parseTerm_parseTerm_loop_parseFactor.pinduct)
  case (1 expression pos)
  then show ?case
    by (auto simp: parseExpression.psimps split: sum.splits prod.splits) fastforce
next
  case (2 expression left pos)
  then show ?case
    by (auto simp: parseExpression_loop.psimps split: sum.splits prod.splits if_splits) fastforce+
next
  case (3 expression pos)
  then show ?case
    by (auto simp: parseTerm.psimps split: sum.splits prod.splits) fastforce
next
  case (4 expression left pos)
  then show ?case
    by (auto simp: parseTerm_loop.psimps split: sum.splits prod.splits if_splits) fastforce+
next
  case (5 expression pos)
  then show ?case
    using scanNumber_ge [of pos expression]
    by (auto simp: parseFactor.psimps Let_def split: sum.splits prod.splits if_splits)
qed

termination parseExpression
  apply (relation "measure (\<lambda>x. case x of
      Inl (Inl (s, p)) \<Rightarrow> 3 * (length s - p) + 2
    | Inl (Inr (s, l, p)) \<Rightarrow> 3 * (length s - p)
    | Inr (Inl (s, p)) \<Rightarrow> 3 * (length s - p) + 1
    | Inr (Inr (Inl (s, l, p))) \<Rightarrow> 3 * (length s - p)
    | Inr (Inr (Inr (s, p))) \<Rightarrow> 3 * (length s - p))")
  apply simp_all
  apply (auto dest!: parse_pos_mono [rule_format])
  done

declare parseExpression.simps [simp del] parseExpression_loop.simps [simp del]
  parseTerm.simps [simp del] parseTerm_loop.simps [simp del] parseFactor.simps [simp del]

definition evaluateExpression :: "jsstring \<Rightarrow> error + number" where
  "evaluateExpression expression =
     (case parseExpression expression 0 of
        Inl e \<Rightarrow> Inl e
      | Inr (result, pos) \<Rightarrow>
          if pos \<noteq> length expression then Inl UnexpectedCharacter else Inr result)"

section \<open>Formatting and the entry point\<close>

definition digitChar :: "int \<Rightarrow> code_unit" where
  "digitChar d = of_int (48 + d)"

text \<open>The decimal digits of an integer \<open>n \<ge> 0\<close>.\<close>

function decimalDigits :: "int \<Rightarrow> jsstring" where
  "decimalDigits n =
     (if n < 10 then [digitChar n] else decimalDigits (n div 10) @ [digitChar (n mod 10)])"
  by pat_completeness auto
termination
  by (relation "measure nat") auto

declare decimalDigits.simps [simp del]

text \<open>
  \<open>x.toFixed(6)\<close>. For a finite \<open>x\<close> of magnitude below \<open>10^21\<close>: the integer \<open>n\<close>
  nearest to \<open>|x| * 10^6\<close> (the larger one of two), its digits filled up with zeros
  to seven places, a point before the last six, and a minus sign when \<open>x < 0\<close>.
  \<open>calculate\<close> calls it only on finite numbers that are no integers, and a binary64
  number of magnitude \<open>2^53\<close> or more is an integer.
\<close>

fun toFixed :: "number \<Rightarrow> jsstring" where
  "toFixed NaN = ascii ''NaN''"
| "toFixed (Infinity sign) = (if sign then ascii ''-Infinity'' else ascii ''Infinity'')"
| "toFixed (Finite sign q) =
     (let n = \<lfloor>q * 10 ^ 6 + 1 / 2\<rfloor>;
          m = decimalDigits n;
          m = (if length m \<le> 6 then replicate (7 - length m) (of_char CHR ''0'') @ m else m);
          k = length m
      in (if sign \<and> 0 < q then ascii ''-'' else []) @
         take (k - 6) m @ ascii ''.'' @ drop (k - 6) m)"

definition ERROR_INVALID_EXPRESSION :: string where
  "ERROR_INVALID_EXPRESSION =
     ''Sorry, I couldn't understand that expression. Try something like '2 + 2' or '5 * 10'.''"

definition ERROR_DIVISION_BY_ZERO :: string where
  "ERROR_DIVISION_BY_ZERO = ''I can't divide by zero! That's not allowed in this universe.''"

definition ERROR_TOO_COMPLEX :: string where
  "ERROR_TOO_COMPLEX = ''That expression is too complex for me to handle.''"

record outcome =
  result :: "number option"
  error :: "string option"

text \<open>
  \<open>isFinite(result) ? (Number.isInteger(result) ? result : parseFloat(result.toFixed(6))) : null\<close>
\<close>

definition formatResult :: "number \<Rightarrow> number option" where
  "formatResult r =
     (if isFinite r then (if isInteger r then Some r else Some (parseFloat (toFixed r)))
      else None)"

text \<open>
  The \<open>try\<close> block of \<open>calculate\<close>; an \<open>Inl\<close> of \<open>evaluateExpression\<close> is a thrown
  \<open>Error\<close>, which the \<open>catch\<close> turns into the generic message (and logs).
\<close>

definition calculate :: "jsstring \<Rightarrow> outcome" where
  "calculate expression =
     (let sanitizedExpression = sanitize expression
      in if \<not> validChars sanitizedExpression then
           \<lparr>result = None, error = Some ERROR_INVALID_EXPRESSION\<rparr>
         else if 100 < length sanitizedExpression then
           \<lparr>result = None, error = Some ERROR_TOO_COMPLEX\<rparr>
         else if slashZero sanitizedExpression then
           \<lparr>result = None, error = Some ERROR_DIVISION_BY_ZERO\<rparr>
         else
           (case evaluateExpression sanitizedExpression of
              Inl e \<Rightarrow> \<lparr>result = None, error = Some ERROR_INVALID_EXPRESSION\<rparr>
            | Inr r \<Rightarrow>
                (let formattedResult = formatResult r
                 in \<lparr>result = formattedResult,
                     error = (if formattedResult = None then Some ERROR_INVALID_EXPRESSION
                              else None)\<rparr>)))"

section \<open>Notions used in the statements\<close>

text \<open>The characters that the number branch of \<open>parseFactor\<close> consumes.\<close>

definition numberChar :: "code_unit \<Rightarrow> bool" where
  "numberChar c \<longleftrightarrow> isDigit c \<or> c = of_char CHR ''.''"

text \<open>A finite number is given by a sign and a magnitude, which is not negative.\<close>

fun wellFormed :: "number \<Rightarrow> bool" where
  "wellFormed (Finite sign q) = (0 \<le> q)"
| "wellFormed _ = True"

text \<open>
  What may follow the text of a number, and of a term, so that the evaluator stops
  there: the end of the input or a character that continues neither.
\<close>

definition stops_number :: "jsstring \<Rightarrow> bool" where
  "stops_number rest \<longleftrightarrow> (case rest of [] \<Rightarrow> True | c # _ \<Rightarrow> \<not> numberChar c)"

definition stops_term :: "jsstring \<Rightarrow> bool" where
  "stops_term rest \<longleftrightarrow>
     (case rest of [] \<Rightarrow> True
      | c # _ \<Rightarrow> \<not> numberChar c \<and> c \<noteq> of_char CHR ''*'' \<and> c \<noteq> of_char CHR ''/'')"

definition stops_expression :: "jsstring \<Rightarrow> bool" where
  "stops_expression rest \<longleftrightarrow>
     (case rest of [] \<Rightarrow> True
      | c # _ \<Rightarrow> \<not> numberChar c \<and> c \<noteq> of_char CHR ''*'' \<and> c \<noteq> of_char CHR ''/'' \<and>
                c \<noteq> of_char CHR ''+'' \<and> c \<noteq> of_char CHR ''-'')"

section \<open>The grammar of the specification\<close>

text \<open>
  The specification gives the language as
  \<^verbatim>\<open>
  expression := term (("+" | "-") term)*
  term       := factor (("*" | "/") factor)*
  factor     := "(" expression ")" | number
  number     := digit+ ("." digit+)?
  \<close>
  with left-associative operators. The trees below are the derivations of this grammar;
  a number keeps its integer digits and, if it has a point, its fraction digits.
\<close>

datatype factor_tree = Number jsstring "jsstring option" | Parens expression_tree
  and term_tree = Factor factor_tree | Times term_tree factor_tree | Over term_tree factor_tree
  and expression_tree =
    Term term_tree | Plus expression_tree term_tree | Minus expression_tree term_tree

fun grammatical_factor :: "factor_tree \<Rightarrow> bool"
  and grammatical_term :: "term_tree \<Rightarrow> bool"
  and grammatical :: "expression_tree \<Rightarrow> bool"
where
  "grammatical_factor (Number ip fp) \<longleftrightarrow>
     ip \<noteq> [] \<and> list_all isDigit ip \<and>
     (case fp of None \<Rightarrow> True | Some ds \<Rightarrow> ds \<noteq> [] \<and> list_all isDigit ds)"
| "grammatical_factor (Parens e) \<longleftrightarrow> grammatical e"
| "grammatical_term (Factor f) \<longleftrightarrow> grammatical_factor f"
| "grammatical_term (Times t f) \<longleftrightarrow> grammatical_term t \<and> grammatical_factor f"
| "grammatical_term (Over t f) \<longleftrightarrow> grammatical_term t \<and> grammatical_factor f"
| "grammatical (Term t) \<longleftrightarrow> grammatical_term t"
| "grammatical (Plus e t) \<longleftrightarrow> grammatical e \<and> grammatical_term t"
| "grammatical (Minus e t) \<longleftrightarrow> grammatical e \<and> grammatical_term t"

text \<open>The text that a tree derives.\<close>

fun text_of_factor :: "factor_tree \<Rightarrow> jsstring"
  and text_of_term :: "term_tree \<Rightarrow> jsstring"
  and text_of :: "expression_tree \<Rightarrow> jsstring"
where
  "text_of_factor (Number ip fp) =
     ip @ (case fp of None \<Rightarrow> [] | Some ds \<Rightarrow> of_char CHR ''.'' # ds)"
| "text_of_factor (Parens e) = of_char CHR ''('' # text_of e @ [of_char CHR '')'']"
| "text_of_term (Factor f) = text_of_factor f"
| "text_of_term (Times t f) = text_of_term t @ of_char CHR ''*'' # text_of_factor f"
| "text_of_term (Over t f) = text_of_term t @ of_char CHR ''/'' # text_of_factor f"
| "text_of (Term t) = text_of_term t"
| "text_of (Plus e t) = text_of e @ of_char CHR ''+'' # text_of_term t"
| "text_of (Minus e t) = text_of e @ of_char CHR ''-'' # text_of_term t"

text \<open>The rational number that a decimal literal denotes.\<close>

definition literalValue :: "jsstring \<Rightarrow> jsstring option \<Rightarrow> rat" where
  "literalValue ip fp =
     of_int (digitsValue ip) +
     (case fp of None \<Rightarrow> 0 | Some ds \<Rightarrow> of_int (digitsValue ds) / 10 ^ length ds)"

text \<open>
  The mathematical value of a tree, in exact rational arithmetic; \<open>None\<close> when a
  divisor is zero.
\<close>

fun exact_factor :: "factor_tree \<Rightarrow> rat option"
  and exact_term :: "term_tree \<Rightarrow> rat option"
  and exact :: "expression_tree \<Rightarrow> rat option"
where
  "exact_factor (Number ip fp) = Some (literalValue ip fp)"
| "exact_factor (Parens e) = exact e"
| "exact_term (Factor f) = exact_factor f"
| "exact_term (Times t f) =
     (case exact_term t of None \<Rightarrow> None
      | Some a \<Rightarrow> (case exact_factor f of None \<Rightarrow> None | Some b \<Rightarrow> Some (a * b)))"
| "exact_term (Over t f) =
     (case exact_term t of None \<Rightarrow> None
      | Some a \<Rightarrow>
          (case exact_factor f of None \<Rightarrow> None
           | Some b \<Rightarrow> if b = 0 then None else Some (a / b)))"
| "exact (Term t) = exact_term t"
| "exact (Plus e t) =
     (case exact e of None \<Rightarrow> None
      | Some a \<Rightarrow> (case exact_term t of None \<Rightarrow> None | Some b \<Rightarrow> Some (a + b)))"
| "exact (Minus e t) =
     (case exact e of None \<Rightarrow> None
      | Some a \<Rightarrow> (case exact_term t of None \<Rightarrow> None | Some b \<Rightarrow> Some (a - b)))"

text \<open>
  The value of a tree in binary64 arithmetic: every literal and every operation is
  rounded to the nearest number, operands are evaluated from left to right, and a
  divisor that is zero is an error.
\<close>

fun float_factor :: "factor_tree \<Rightarrow> error + number"
  and float_term :: "term_tree \<Rightarrow> error + number"
  and float_value :: "expression_tree \<Rightarrow> error + number"
where
  "float_factor (Number ip fp) = Inr (fround False (literalValue ip fp))"
| "float_factor (Parens e) = float_value e"
| "float_term (Factor f) = float_factor f"
| "float_term (Times t f) =
     (case float_term t of Inl e \<Rightarrow> Inl e
      | Inr a \<Rightarrow> (case float_factor f of Inl e \<Rightarrow> Inl e | Inr b \<Rightarrow> Inr (mul a b)))"
| "float_term (Over t f) =
     (case float_term t of Inl e \<Rightarrow> Inl e
      | Inr a \<Rightarrow>
          (case float_factor f of Inl e \<Rightarrow> Inl e
           | Inr b \<Rightarrow> if isZero b then Inl DivisionByZero else Inr (divide_number a b)))"
| "float_value (Term t) = float_term t"
| "float_value (Plus e t) =
     (case float_value e of Inl e \<Rightarrow> Inl e
      | Inr a \<Rightarrow> (case float_term t of Inl e \<Rightarrow> Inl e | Inr b \<Rightarrow> Inr (add a b)))"
| "float_value (Minus e t) =
     (case float_value e of Inl e \<Rightarrow> Inl e
      | Inr a \<Rightarrow> (case float_term t of Inl e \<Rightarrow> Inl e | Inr b \<Rightarrow> Inr (sub a b)))"

text \<open>
  Binary64 holds every integer of magnitude below \<open>2^53\<close>. A tree is integral when
  its literals and the exact values of all its subtrees are such integers (so that no
  divisor is zero and every division is exact).
\<close>

definition smallInt :: "rat \<Rightarrow> bool" where
  "smallInt r \<longleftrightarrow> of_int \<lfloor>r\<rfloor> = r \<and> \<bar>r\<bar> < 2 ^ 53"

fun integral_factor :: "factor_tree \<Rightarrow> bool"
  and integral_term :: "term_tree \<Rightarrow> bool"
  and integral :: "expression_tree \<Rightarrow> bool"
where
  "integral_factor (Number ip fp) \<longleftrightarrow> fp = None \<and> smallInt (literalValue ip fp)"
| "integral_factor (Parens e) \<longleftrightarrow> integral e"
| "integral_term (Factor f) \<longleftrightarrow> integral_factor f"
| "integral_term (Times t f) \<longleftrightarrow>
     integral_term t \<and> integral_factor f \<and>
     (case exact_term (Times t f) of None \<Rightarrow> False | Some r \<Rightarrow> smallInt r)"
| "integral_term (Over t f) \<longleftrightarrow>
     integral_term t \<and> integral_factor f \<and>
     (case exact_term (Over t f) of None \<Rightarrow> False | Some r \<Rightarrow> smallInt r)"
| "integral (Term t) \<longleftrightarrow> integral_term t"
| "integral (Plus e t) \<longleftrightarrow>
     integral e \<and> integral_term t \<and>
     (case exact (Plus e t) of None \<Rightarrow> False | Some r \<Rightarrow> smallInt r)"
| "integral (Minus e t) \<longleftrightarrow>
     integral e \<and> integral_term t \<and>
     (case exact (Minus e t) of None \<Rightarrow> False | Some r \<Rightarrow> smallInt r)"

text \<open>The number \<open>v\<close> is exactly the small integer \<open>r\<close>.\<close>

definition exactly :: "number \<Rightarrow> rat \<Rightarrow> bool" where
  "exactly v r \<longleftrightarrow> isFinite v \<and> wellFormed v \<and> valueOf v = r \<and> smallInt r"

section \<open>Properties of the entry point\<close>

lemma error_messages_distinct:
  "ERROR_INVALID_EXPRESSION \<noteq> ERROR_DIVISION_BY_ZERO"
  "ERROR_INVALID_EXPRESSION \<noteq> ERROR_TOO_COMPLEX"
  "ERROR_DIVISION_BY_ZERO \<noteq> ERROR_TOO_COMPLEX"
  by (simp_all add: ERROR_INVALID_EXPRESSION_def ERROR_DIVISION_BY_ZERO_def ERROR_TOO_COMPLEX_def)

lemma sanitize_no_whitespace: "c \<in> set (sanitize x) \<Longrightarrow> \<not> isWhiteSpace c"
  by (simp add: sanitize_def)

lemma sanitize_replicate:
  "\<not> isWhiteSpace c \<Longrightarrow> sanitize (replicate n c) = replicate n c"
  by (simp add: sanitize_def)

lemma zero_not_whitespace: "\<not> isWhiteSpace (of_char CHR ''0'')"
  by (simp add: isWhiteSpace_def)

text \<open>On a string without white space the pattern \<open>/\/\s*0/\<close> is the substring \<open>/0\<close>.\<close>

lemma sublist_imp_slashZero: "sublist (ascii ''/0'') s \<Longrightarrow> slashZero s"
proof (induction s)
  case Nil
  then show ?case by (simp add: ascii_def)
next
  case (Cons c cs)
  show ?case
  proof (cases "prefix (ascii ''/0'') (c # cs)")
    case True
    then obtain rest where "c # cs = ascii ''/0'' @ rest"
      by (auto simp: prefix_def)
    then show ?thesis
      using zero_not_whitespace by (simp add: ascii_def)
  next
    case False
    with Cons.prems have "sublist (ascii ''/0'') cs"
      by (simp add: sublist_Cons_right)
    with Cons.IH show ?thesis by simp
  qed
qed

lemma slashZero_imp_sublist:
  "slashZero s \<Longrightarrow> \<forall>c\<in>set s. \<not> isWhiteSpace c \<Longrightarrow> sublist (ascii ''/0'') s"
proof (induction s)
  case Nil
  then show ?case by simp
next
  case (Cons c cs)
  from Cons.prems(2) have nows: "dropWhile isWhiteSpace cs = cs"
    by (cases cs) auto
  show ?case
  proof (cases "slashZero cs")
    case True
    with Cons show ?thesis by (simp add: sublist_Cons_right)
  next
    case False
    with Cons.prems(1) nows obtain rest where "c # cs = ascii ''/0'' @ rest"
      by (auto simp: ascii_def split: list.splits)
    then show ?thesis
      by (metis sublist_append_rightI)
  qed
qed

lemma slashZero_sanitize: "slashZero (sanitize x) \<longleftrightarrow> sublist (ascii ''/0'') (sanitize x)"
  using sublist_imp_slashZero slashZero_imp_sublist sanitize_no_whitespace by blast

lemmas string_eval = ascii_def sanitize_def isWhiteSpace_def validChars_def allowedChar_def
  isDigit_def

lemmas parse_eval = parseExpression.simps parseExpression_loop.simps parseTerm.simps
  parseTerm_loop.simps parseFactor.simps scanNumber.simps substring_def Let_def

lemma floor_rat_numeral:
  "\<lfloor>numeral a / numeral b :: rat\<rfloor> = numeral a div numeral b"
  "\<lfloor>1 / numeral b :: rat\<rfloor> = 1 div numeral b"
  "\<lceil>numeral a / numeral b :: rat\<rceil> = - (- numeral a div numeral b)"
  "\<lceil>1 / numeral b :: rat\<rceil> = - (- 1 div numeral b)"
  using floor_divide_of_int_eq [of "numeral a" "numeral b", where ?'a = rat]
    floor_divide_of_int_eq [of 1 "numeral b", where ?'a = rat]
    ceiling_divide_eq_div [of "numeral a" "numeral b", where ?'a = rat]
    ceiling_divide_eq_div [of 1 "numeral b", where ?'a = rat]
  by simp_all

lemmas number_eval = parseFloat_def digitsValue_def digitVal_def fround_def froundSigned_def
  binade_def bitlen.simps roundHalfEven_def sub_def floor_rat_numeral Let_def

text \<open>
  C8. An input that is empty once its white space is removed, or that keeps a character
  outside the digits, \<open>+ - * /\<close>, the parentheses and the point, gets the generic
  message at once.
\<close>

theorem calculate_rejects_illegal_characters:
  assumes "sanitize x = [] \<or> (\<exists>c\<in>set (sanitize x). \<not> allowedChar c)"
  shows "calculate x = \<lparr>result = None, error = Some ERROR_INVALID_EXPRESSION\<rparr>"
proof -
  from assms have "\<not> validChars (sanitize x)"
    by (auto simp: validChars_def list_all_iff)
  then show ?thesis
    by (simp add: calculate_def)
qed

theorem calculate_rejects_illegal_characters_witness:
  "(\<exists>c\<in>set (sanitize (ascii ''abc'')). \<not> allowedChar c) \<and>
   calculate (ascii ''abc'') = \<lparr>result = None, error = Some ERROR_INVALID_EXPRESSION\<rparr> \<and>
   sanitize (ascii '' '') = [] \<and>
   calculate (ascii '' '') = \<lparr>result = None, error = Some ERROR_INVALID_EXPRESSION\<rparr>"
proof -
  have a: "\<exists>c\<in>set (sanitize (ascii ''abc'')). \<not> allowedChar c"
    by (simp add: string_eval)
  have b: "sanitize (ascii '' '') = []"
    by (simp add: string_eval)
  show ?thesis
    using a b calculate_rejects_illegal_characters [of "ascii ''abc''"]
      calculate_rejects_illegal_characters [of "ascii '' ''"]
    by simp
qed

text \<open>
  C2, as the claim states it: any input longer than 100 characters after sanitizing is
  too complex. The character check comes first: 101 letters are an invalid expression.
\<close>

theorem length_guard_counterexample:
  "100 < length (sanitize (replicate 101 (of_char CHR ''a''))) \<and>
   calculate (replicate 101 (of_char CHR ''a'')) =
     \<lparr>result = None, error = Some ERROR_INVALID_EXPRESSION\<rparr> \<and>
   ERROR_INVALID_EXPRESSION \<noteq> ERROR_TOO_COMPLEX"
  by (simp add: calculate_def sanitize_def isWhiteSpace_def validChars_def list_all_iff
      allowedChar_def isDigit_def error_messages_distinct)

text \<open>
  C2, amended: an input whose sanitized form passes the character check and is longer
  than 100 characters is too complex, whatever else it holds.
\<close>

theorem length_guard:
  assumes "validChars (sanitize x)" and "100 < length (sanitize x)"
  shows "calculate x = \<lparr>result = None, error = Some ERROR_TOO_COMPLEX\<rparr>"
  using assms by (simp add: calculate_def)

theorem length_guard_witness:
  "validChars (sanitize (replicate 101 (of_char CHR ''1''))) \<and>
   100 < length (sanitize (replicate 101 (of_char CHR ''1''))) \<and>
   calculate (replicate 101 (of_char CHR ''1'')) =
     \<lparr>result = None, error = Some ERROR_TOO_COMPLEX\<rparr>"
proof -
  have s: "sanitize (replicate 101 (of_char CHR ''1'')) = replicate 101 (of_char CHR ''1'')"
    by (rule sanitize_replicate) (simp add: isWhiteSpace_def)
  have a: "validChars (sanitize (replicate 101 (of_char CHR ''1'')))"
    unfolding s by (simp add: validChars_def list_all_iff allowedChar_def isDigit_def)
  have b: "100 < length (sanitize (replicate 101 (of_char CHR ''1'')))"
    unfolding s by simp
  show ?thesis
    using a b length_guard [OF a b] by simp
qed

text \<open>
  C3. An input that passes the character check and the length guard gets the
  division-by-zero message exactly when its sanitized text holds a slash directly
  followed by the digit 0; \<open>evaluateExpression\<close> has no part in that outcome.
\<close>

theorem slash_zero_precheck:
  assumes "validChars (sanitize x)" and "length (sanitize x) \<le> 100"
  shows "calculate x = \<lparr>result = None, error = Some ERROR_DIVISION_BY_ZERO\<rparr> \<longleftrightarrow>
         sublist (ascii ''/0'') (sanitize x)"
proof (cases "slashZero (sanitize x)")
  case True
  with assms show ?thesis
    by (simp add: calculate_def slashZero_sanitize)
next
  case False
  with assms have "error (calculate x) \<noteq> Some ERROR_DIVISION_BY_ZERO"
    by (simp add: calculate_def Let_def error_messages_distinct split: sum.split)
  then have "calculate x \<noteq> \<lparr>result = None, error = Some ERROR_DIVISION_BY_ZERO\<rparr>"
    by auto
  with False show ?thesis
    by (simp add: slashZero_sanitize)
qed

theorem slash_zero_precheck_witness:
  "sublist (ascii ''/0'') (sanitize (ascii ''5 / 0'')) \<and>
   calculate (ascii ''5 / 0'') = \<lparr>result = None, error = Some ERROR_DIVISION_BY_ZERO\<rparr> \<and>
   sublist (ascii ''/0'') (sanitize (ascii ''7/0.0001'')) \<and>
   calculate (ascii ''7/0.0001'') = \<lparr>result = None, error = Some ERROR_DIVISION_BY_ZERO\<rparr> \<and>
   \<not> sublist (ascii ''/0'') (sanitize (ascii ''(1-1)*5/(3-3)'')) \<and>
   calculate (ascii ''(1-1)*5/(3-3)'') \<noteq> \<lparr>result = None, error = Some ERROR_DIVISION_BY_ZERO\<rparr>"
proof -
  have a: "validChars (sanitize (ascii ''5 / 0''))" "length (sanitize (ascii ''5 / 0'')) \<le> 100"
    by (simp_all add: string_eval)
  have a': "sublist (ascii ''/0'') (sanitize (ascii ''5 / 0''))"
    by (simp add: string_eval sublist_Cons_right)
  have b: "validChars (sanitize (ascii ''7/0.0001''))"
    "length (sanitize (ascii ''7/0.0001'')) \<le> 100"
    by (simp_all add: string_eval)
  have b': "sublist (ascii ''/0'') (sanitize (ascii ''7/0.0001''))"
    by (simp add: string_eval sublist_Cons_right)
  have c: "validChars (sanitize (ascii ''(1-1)*5/(3-3)''))"
    "length (sanitize (ascii ''(1-1)*5/(3-3)'')) \<le> 100"
    by (simp_all add: string_eval)
  have c': "\<not> sublist (ascii ''/0'') (sanitize (ascii ''(1-1)*5/(3-3)''))"
    by (simp add: string_eval sublist_Cons_right)
  show ?thesis
    using a' b' c' slash_zero_precheck [OF a] slash_zero_precheck [OF b]
      slash_zero_precheck [OF c]
    by simp
qed

text \<open>
  C4. Once the three checks have passed, every error thrown while parsing or evaluating
  is caught and reported with the generic message.
\<close>

theorem calculate_catches_failures:
  assumes "validChars (sanitize x)" and "length (sanitize x) \<le> 100"
    and "\<not> slashZero (sanitize x)"
    and "evaluateExpression (sanitize x) = Inl e"
  shows "calculate x = \<lparr>result = None, error = Some ERROR_INVALID_EXPRESSION\<rparr>"
  using assms by (simp add: calculate_def)

lemma evaluate_zero_divisor:
  "evaluateExpression (ascii ''(1-1)*5/(3-3)'') = Inl DivisionByZero"
  by (simp add: evaluateExpression_def ascii_def isDigit_def parse_eval number_eval)

theorem calculate_catches_failures_witness:
  "\<not> slashZero (sanitize (ascii ''(1-1)*5/(3-3)'')) \<and>
   evaluateExpression (sanitize (ascii ''(1-1)*5/(3-3)'')) = Inl DivisionByZero \<and>
   calculate (ascii ''(1-1)*5/(3-3)'') =
     \<lparr>result = None, error = Some ERROR_INVALID_EXPRESSION\<rparr>"
proof -
  have s: "sanitize (ascii ''(1-1)*5/(3-3)'') = ascii ''(1-1)*5/(3-3)''"
    by (simp add: string_eval)
  have a: "validChars (sanitize (ascii ''(1-1)*5/(3-3)''))"
    "length (sanitize (ascii ''(1-1)*5/(3-3)'')) \<le> 100"
    "\<not> slashZero (sanitize (ascii ''(1-1)*5/(3-3)''))"
    by (simp_all add: string_eval)
  have b: "evaluateExpression (sanitize (ascii ''(1-1)*5/(3-3)'')) = Inl DivisionByZero"
    by (simp only: s evaluate_zero_divisor)
  show ?thesis
    using a(3) b calculate_catches_failures [OF a b] by simp
qed

text \<open>
  C7. When the three checks have passed and the top-level expression rule hands back a
  cursor before the end of the sanitized text, \<open>evaluateExpression\<close> throws its
  \<open>Unexpected character\<close> error and the caller sees the generic message.
\<close>

theorem trailing_characters_rejected:
  assumes "validChars (sanitize x)" and "length (sanitize x) \<le> 100"
    and "\<not> slashZero (sanitize x)"
    and "parseExpression (sanitize x) 0 = Inr (v, pos)" and "pos < length (sanitize x)"
  shows "evaluateExpression (sanitize x) = Inl UnexpectedCharacter \<and>
         calculate x = \<lparr>result = None, error = Some ERROR_INVALID_EXPRESSION\<rparr>"
  using assms by (simp add: calculate_def evaluateExpression_def)

theorem trailing_characters_rejected_witness:
  "parseExpression (sanitize (ascii ''1)'')) 0 = Inr (Finite False 1, 1) \<and>
   1 < length (sanitize (ascii ''1)'')) \<and>
   evaluateExpression (sanitize (ascii ''1)'')) = Inl UnexpectedCharacter \<and>
   calculate (ascii ''1)'') = \<lparr>result = None, error = Some ERROR_INVALID_EXPRESSION\<rparr>"
proof -
  have s: "sanitize (ascii ''1)'') = ascii ''1)''"
    by (simp add: string_eval)
  have a: "validChars (sanitize (ascii ''1)''))" "length (sanitize (ascii ''1)'')) \<le> 100"
    "\<not> slashZero (sanitize (ascii ''1)''))"
    by (simp_all add: string_eval)
  have b: "parseExpression (sanitize (ascii ''1)'')) 0 = Inr (Finite False 1, 1)"
    unfolding s by (simp add: ascii_def isDigit_def parse_eval number_eval)
  have c: "1 < length (sanitize (ascii ''1)''))"
    unfolding s by (simp add: ascii_def)
  show ?thesis
    using b c trailing_characters_rejected [OF a b c] by simp
qed

text \<open>
  C9. Of the two fields of the outcome exactly one is populated: the result is null
  if and only if the error is not.
\<close>

theorem outcome_exactly_one_field:
  "(result (calculate x) = None) = (error (calculate x) \<noteq> None)"
  by (simp add: calculate_def Let_def split: sum.split)

lemma calculate_two_plus_two:
  "result (calculate (ascii ''2 + 2'')) = Some (Finite False 4)"
proof -
  have s: "sanitize (ascii ''2 + 2'') = ascii ''2+2''"
    by (simp add: string_eval)
  have a: "validChars (ascii ''2+2'')" "\<not> slashZero (ascii ''2+2'')" "length (ascii ''2+2'') = 3"
    by (simp_all add: string_eval)
  have b: "evaluateExpression (ascii ''2+2'') = Inr (Finite False 4)"
    by (simp add: evaluateExpression_def ascii_def isDigit_def parse_eval number_eval)
  show ?thesis
    by (simp add: calculate_def s a b formatResult_def)
qed

theorem outcome_exactly_one_field_witness:
  "result (calculate (ascii ''2 + 2'')) \<noteq> None \<and> error (calculate (ascii ''2 + 2'')) = None \<and>
   result (calculate (ascii ''abc'')) = None \<and> error (calculate (ascii ''abc'')) \<noteq> None"
proof -
  have "result (calculate (ascii ''abc'')) = None"
    by (simp add: calculate_def string_eval)
  then show ?thesis
    using calculate_two_plus_two outcome_exactly_one_field [of "ascii ''2 + 2''"]
      outcome_exactly_one_field [of "ascii ''abc''"]
    by simp
qed

text \<open>
  C10, as the claim states it: an input that begins with an operator is an invalid
  expression. The text \<open>-5/0\<close> begins with an operator and is a division by zero.
\<close>

theorem leading_operator_counterexample:
  "sanitize (ascii ''-5/0'') = of_char CHR ''-'' # ascii ''5/0'' \<and>
   calculate (ascii ''-5/0'') = \<lparr>result = None, error = Some ERROR_DIVISION_BY_ZERO\<rparr> \<and>
   ERROR_DIVISION_BY_ZERO \<noteq> ERROR_INVALID_EXPRESSION"
  using error_messages_distinct(1) [symmetric]
  by (simp add: calculate_def string_eval)

lemma leading_operator_not_a_number:
  assumes "c = of_char CHR ''+'' \<or> c = of_char CHR ''-'' \<or> c = of_char CHR ''*'' \<or>
           c = of_char CHR ''/''"
  shows "evaluateExpression (c # rest) = Inl ExpectedANumber"
proof -
  from assms have "scanNumber (c # rest) 0 = 0"
    by (subst scanNumber.simps) (auto simp: isDigit_def)
  moreover from assms have "c \<noteq> of_char CHR ''(''"
    by auto
  ultimately have "parseFactor (c # rest) 0 = Inl ExpectedANumber"
    by (subst parseFactor.simps) simp
  then show ?thesis
    by (simp add: evaluateExpression_def parseExpression.simps parseTerm.simps)
qed

text \<open>
  C10, amended: an input whose sanitized form begins with an operator, is at most 100
  characters long and holds no slash followed by 0 is an invalid expression: there is
  no unary plus or minus.
\<close>

theorem leading_operator_rejected:
  assumes "sanitize x = c # rest"
    and "c = of_char CHR ''+'' \<or> c = of_char CHR ''-'' \<or> c = of_char CHR ''*'' \<or>
         c = of_char CHR ''/''"
    and "length (sanitize x) \<le> 100" and "\<not> slashZero (sanitize x)"
  shows "calculate x = \<lparr>result = None, error = Some ERROR_INVALID_EXPRESSION\<rparr>"
proof -
  have "evaluateExpression (sanitize x) = Inl ExpectedANumber"
    unfolding assms(1) using assms(2) by (rule leading_operator_not_a_number)
  with assms(3,4) show ?thesis
    by (simp add: calculate_def Let_def)
qed

theorem leading_operator_rejected_witness:
  "sanitize (ascii ''-5'') = of_char CHR ''-'' # ascii ''5'' \<and>
   calculate (ascii ''-5'') = \<lparr>result = None, error = Some ERROR_INVALID_EXPRESSION\<rparr> \<and>
   sanitize (ascii ''+3'') = of_char CHR ''+'' # ascii ''3'' \<and>
   calculate (ascii ''+3'') = \<lparr>result = None, error = Some ERROR_INVALID_EXPRESSION\<rparr>"
proof -
  have a: "sanitize (ascii ''-5'') = of_char CHR ''-'' # ascii ''5''"
    "of_char CHR ''-'' = (of_char CHR ''+'' :: code_unit) \<or>
     of_char CHR ''-'' = (of_char CHR ''-'' :: code_unit) \<or>
     of_char CHR ''-'' = (of_char CHR ''*'' :: code_unit) \<or>
     of_char CHR ''-'' = (of_char CHR ''/'' :: code_unit)"
    "length (sanitize (ascii ''-5'')) \<le> 100" "\<not> slashZero (sanitize (ascii ''-5''))"
    by (simp_all add: string_eval)
  have b: "sanitize (ascii ''+3'') = of_char CHR ''+'' # ascii ''3''"
    "of_char CHR ''+'' = (of_char CHR ''+'' :: code_unit) \<or>
     of_char CHR ''+'' = (of_char CHR ''-'' :: code_unit) \<or>
     of_char CHR ''+'' = (of_char CHR ''*'' :: code_unit) \<or>
     of_char CHR ''+'' = (of_char CHR ''/'' :: code_unit)"
    "length (sanitize (ascii ''+3'')) \<le> 100" "\<not> slashZero (sanitize (ascii ''+3''))"
    by (simp_all add: string_eval)
  show ?thesis
    using a(1) b(1) leading_operator_rejected [OF a] leading_operator_rejected [OF b]
    by simp
qed

section \<open>The factor rule\<close>

lemma scanNumber_takeWhile:
  "scanNumber s p = p + length (takeWhile numberChar (drop p s))"
proof (induction s p rule: scanNumber.induct)
  case (1 expression pos)
  show ?case
  proof (cases "pos < length expression")
    case True
    then have d: "drop pos expression = expression ! pos # drop (pos + 1) expression"
      by (simp add: Cons_nth_drop_Suc)
    show ?thesis
    proof (cases "numberChar (expression ! pos)")
      case True
      then have c: "isDigit (expression ! pos) \<or> expression ! pos = of_char CHR ''.''"
        by (simp add: numberChar_def)
      with \<open>pos < length expression\<close> 1
      have "scanNumber expression (pos + 1) =
            pos + 1 + length (takeWhile numberChar (drop (pos + 1) expression))"
        by blast
      with \<open>pos < length expression\<close> c True show ?thesis
        by (subst scanNumber.simps) (simp add: d)
    next
      case False
      then have c: "\<not> (isDigit (expression ! pos) \<or> expression ! pos = of_char CHR ''.'')"
        by (simp add: numberChar_def)
      with False show ?thesis
        by (subst scanNumber.simps) (simp add: d)
    qed
  next
    case False
    then show ?thesis
      by (subst scanNumber.simps) simp
  qed
qed

lemma substring_run:
  "substring s p (p + length (takeWhile P (drop p s))) = takeWhile P (drop p s)"
  by (simp add: substring_def takeWhile_eq_take [symmetric])

text \<open>
  C5, as the claim states it: the number branch consumes at most one decimal point.
  On \<open>1.2.3\<close> it consumes all five characters, two points among them, and returns 1.2.
\<close>

theorem factor_rule_counterexample:
  "parseFactor (ascii ''1.2.3'') 0 = Inr (parseFloat (ascii ''1.2''), 5) \<and>
   substring (ascii ''1.2.3'') 0 5 = ascii ''1.2.3'' \<and>
   count_list (ascii ''1.2.3'') (of_char CHR ''.'') = 2"
  by (simp add: ascii_def isDigit_def parse_eval number_eval)

text \<open>
  C5, amended. If the next character is \<open>(\<close>, the factor rule consumes it, runs the
  expression rule and requires \<open>)\<close> next, which it consumes; otherwise it fails with
  the missing-parenthesis error. In every other case it consumes the longest run of
  digits and points, however many points, and returns what \<open>parseFloat\<close> reads from
  the run; it fails with the expected-a-number error when the run is empty.
\<close>

theorem factor_rule:
  "parseFactor s p =
     (if p < length s \<and> s ! p = of_char CHR ''('' then
        (case parseExpression s (p + 1) of
           Inl e \<Rightarrow> Inl e
         | Inr (v, p') \<Rightarrow>
             if p' < length s \<and> s ! p' = of_char CHR '')'' then Inr (v, p' + 1)
             else Inl MissingClosingParenthesis)
      else
        (let run = takeWhile numberChar (drop p s)
         in if run = [] then Inl ExpectedANumber
            else Inr (parseFloat run, p + length run)))"
  by (subst parseFactor.simps)
     (simp add: scanNumber_takeWhile substring_run Let_def)

section \<open>Digits\<close>

lemma digitsValue_foldl:
  "foldl (\<lambda>a c. 10 * a + digitVal c) a ds = a * 10 ^ length ds + digitsValue ds"
proof (induction ds arbitrary: a)
  case Nil
  then show ?case by (simp add: digitsValue_def)
next
  case (Cons d ds)
  have "foldl (\<lambda>a c. 10 * a + digitVal c) a (d # ds) =
        (10 * a + digitVal d) * 10 ^ length ds + digitsValue ds"
    by (simp add: Cons.IH)
  moreover have "digitsValue (d # ds) = digitVal d * 10 ^ length ds + digitsValue ds"
    by (simp add: digitsValue_def Cons.IH [of "digitVal d"])
  ultimately show ?case
    by (simp add: algebra_simps)
qed

lemma digitsValue_append:
  "digitsValue (a @ b) = digitsValue a * 10 ^ length b + digitsValue b"
  by (simp add: digitsValue_def digitsValue_foldl [of "foldl _ _ _"])

lemma digitsValue_zeros: "digitsValue (replicate n (of_char CHR ''0'')) = 0"
  by (induction n) (simp_all add: digitsValue_def digitVal_def)

lemma digitChar_props:
  assumes "0 \<le> d" and "d < 10"
  shows "isDigit (digitChar d)" and "digitVal (digitChar d) = d"
proof -
  have "uint (word_of_int (48 + d) :: code_unit) = (48 + d) mod 2 ^ 16"
    by (subst uint_word_of_int) simp
  with assms have u: "uint (digitChar d) = 48 + d"
    unfolding digitChar_def by simp
  show "isDigit (digitChar d)"
    using assms by (simp add: isDigit_def word_le_def u)
  show "digitVal (digitChar d) = d"
    by (simp add: digitVal_def u)
qed

lemma decimalDigits_props:
  "0 \<le> n \<Longrightarrow>
   decimalDigits n \<noteq> [] \<and> list_all isDigit (decimalDigits n) \<and>
   digitsValue (decimalDigits n) = n"
proof (induction n rule: decimalDigits.induct)
  case (1 n)
  show ?case
  proof (cases "n < 10")
    case True
    with 1(2) show ?thesis
      by (subst (1 2 3) decimalDigits.simps)
         (simp add: digitChar_props digitsValue_def)
  next
    case False
    with 1 have ih: "list_all isDigit (decimalDigits (n div 10))"
      "digitsValue (decimalDigits (n div 10)) = n div 10"
      by simp_all
    have m: "0 \<le> n mod 10" "n mod 10 < 10"
      by simp_all
    from False ih show ?thesis
      by (subst (1 2 3) decimalDigits.simps)
         (simp add: digitsValue_append digitChar_props [OF m] digitsValue_def)
  qed
qed

lemma takeWhile_digits_point:
  assumes "list_all isDigit a"
  shows "takeWhile isDigit (a @ of_char CHR ''.'' # b) = a"
    and "dropWhile isDigit (a @ of_char CHR ''.'' # b) = of_char CHR ''.'' # b"
proof -
  have p: "\<not> isDigit (of_char CHR ''.'')"
    by (simp add: isDigit_def)
  from assms have a: "\<And>x. x \<in> set a \<Longrightarrow> isDigit x"
    by (simp add: list_all_iff)
  show "takeWhile isDigit (a @ of_char CHR ''.'' # b) = a"
    using p by (simp add: takeWhile_append2 [OF a])
  show "dropWhile isDigit (a @ of_char CHR ''.'' # b) = of_char CHR ''.'' # b"
    using p by (simp add: dropWhile_append2 [OF a])
qed

lemma takeWhile_all_digits: "list_all isDigit b \<Longrightarrow> takeWhile isDigit b = b"
  by (simp add: list_all_iff)

lemma parseFloat_unsigned:
  assumes "t = c # t'" and "isDigit c \<or> c = of_char CHR ''.''"
  shows "parseFloat t =
     (let ip = takeWhile isDigit t;
          fp = (case dropWhile isDigit t of
                  [] \<Rightarrow> []
                | c # cs \<Rightarrow> if c = of_char CHR ''.'' then takeWhile isDigit cs else [])
      in if ip = [] \<and> fp = [] then NaN
         else fround False
                (of_int (digitsValue ip) + of_int (digitsValue fp) / 10 ^ length fp))"
proof -
  from assms(2) have "c \<noteq> of_char CHR ''-''" "c \<noteq> of_char CHR ''+''"
    by (auto simp: isDigit_def)
  then show ?thesis
    unfolding parseFloat_def assms(1) by (simp only: list.case if_False prod.case Let_def)
qed

text \<open>\<open>parseFloat\<close> on fixed-point notation: an optional minus, digits, a point, digits.\<close>

lemma parseFloat_fixed:
  assumes "a \<noteq> []" and "list_all isDigit a" and "list_all isDigit b"
  shows "parseFloat ((if neg then ascii ''-'' else []) @ a @ ascii ''.'' @ b) =
         fround neg (of_int (digitsValue a) + of_int (digitsValue b) / 10 ^ length b)"
proof -
  from assms(1) obtain c a' where a: "a = c # a'"
    by (cases a) auto
  have t: "takeWhile isDigit (a @ of_char CHR ''.'' # b) = a"
    "dropWhile isDigit (a @ of_char CHR ''.'' # b) = of_char CHR ''.'' # b"
    using takeWhile_digits_point [OF assms(2)] by simp_all
  show ?thesis
  proof (cases neg)
    case True
    then have "parseFloat ((if neg then ascii ''-'' else []) @ a @ ascii ''.'' @ b) =
               parseFloat (of_char CHR ''-'' # (a @ of_char CHR ''.'' # b))"
      by (simp add: ascii_def)
    also have "\<dots> = fround True (of_int (digitsValue a) + of_int (digitsValue b) / 10 ^ length b)"
      using assms(1)
      by (simp add: parseFloat_def t takeWhile_all_digits [OF assms(3)] del: of_char_Char)
    finally show ?thesis
      using True by simp
  next
    case False
    have e: "a @ of_char CHR ''.'' # b = c # (a' @ of_char CHR ''.'' # b)"
      by (simp add: a)
    from assms(2) have d: "isDigit c \<or> c = of_char CHR ''.''"
      by (simp add: a)
    have "parseFloat (a @ of_char CHR ''.'' # b) =
        fround False (of_int (digitsValue a) + of_int (digitsValue b) / 10 ^ length b)"
      using assms(1)
      by (simp only: parseFloat_unsigned [OF e d] t takeWhile_all_digits [OF assms(3)] Let_def
          list.case if_True if_False simp_thms)
    with False show ?thesis
      by (simp add: ascii_def)
  qed
qed

lemma parseFloat_toFixed:
  assumes "0 < q"
  shows "parseFloat (toFixed (Finite sign q)) =
         fround sign (of_int \<lfloor>q * 10 ^ 6 + 1 / 2\<rfloor> / 10 ^ 6)"
proof -
  define n where "n = \<lfloor>q * 10 ^ 6 + 1 / 2\<rfloor>"
  define m0 where "m0 = decimalDigits n"
  define m where "m = (if length m0 \<le> 6 then replicate (7 - length m0) (of_char CHR ''0'') @ m0 else m0)"
  define k where "k = length m"
  from assms have "0 \<le> n"
    unfolding n_def by simp
  then have m0: "m0 \<noteq> []" "list_all isDigit m0" "digitsValue m0 = n"
    unfolding m0_def using decimalDigits_props by blast+
  have z: "isDigit (of_char CHR ''0'')"
    by (simp add: isDigit_def)
  have m: "list_all isDigit m" "digitsValue m = n" "7 \<le> k"
    using m0 z unfolding m_def k_def
    by (auto simp: digitsValue_append digitsValue_zeros list_all_iff simp del: of_char_Char)
  define a where "a = take (k - 6) m"
  define b where "b = drop (k - 6) m"
  have ab: "a \<noteq> []" "list_all isDigit a" "list_all isDigit b" "length b = 6" "m = a @ b"
    using m unfolding a_def b_def k_def
    by (auto simp: list_all_iff dest: in_set_takeD in_set_dropD)
  have "toFixed (Finite sign q) =
        (if sign \<and> 0 < q then ascii ''-'' else []) @ a @ ascii ''.'' @ b"
    unfolding a_def b_def k_def m_def m0_def n_def
    by (simp only: toFixed.simps Let_def)
  with assms have
    "toFixed (Finite sign q) = (if sign then ascii ''-'' else []) @ a @ ascii ''.'' @ b"
    by simp
  then have "parseFloat (toFixed (Finite sign q)) =
             fround sign (of_int (digitsValue a) + of_int (digitsValue b) / 10 ^ length b)"
    by (simp only: parseFloat_fixed [OF ab(1,2,3)])
  also have "of_int (digitsValue a) + of_int (digitsValue b) / 10 ^ length b =
             (of_int (digitsValue m) :: rat) / 10 ^ 6"
    by (simp add: ab(4,5) digitsValue_append field_simps)
  finally show ?thesis
    by (simp add: m(2) n_def)
qed

section \<open>Magnitudes are never negative\<close>

lemma roundHalfEven_nonneg: "0 \<le> r \<Longrightarrow> 0 \<le> roundHalfEven r"
  by (auto simp: roundHalfEven_def Let_def)

lemma fround_wellFormed: "0 \<le> q \<Longrightarrow> wellFormed (fround sign q)"
proof -
  assume q: "0 \<le> q"
  have "0 \<le> of_int (roundHalfEven (q / 2 powi ex)) * (2::rat) powi ex" for ex
    using q by (intro mult_nonneg_nonneg) (simp_all add: roundHalfEven_nonneg)
  then show ?thesis
    by (simp add: fround_def Let_def)
qed

lemma add_wellFormed: "wellFormed x \<Longrightarrow> wellFormed y \<Longrightarrow> wellFormed (add x y)"
  by (cases x; cases y) (simp_all add: Let_def froundSigned_def fround_wellFormed)

lemma sub_wellFormed: "wellFormed x \<Longrightarrow> wellFormed y \<Longrightarrow> wellFormed (sub x y)"
  unfolding sub_def by (rule add_wellFormed) (cases y; simp)+

lemma mul_wellFormed: "wellFormed x \<Longrightarrow> wellFormed y \<Longrightarrow> wellFormed (mul x y)"
  by (cases x; cases y) (simp_all add: fround_wellFormed)

lemma divide_wellFormed:
  "wellFormed x \<Longrightarrow> wellFormed y \<Longrightarrow> wellFormed (divide_number x y)"
  by (cases x; cases y) (simp_all add: fround_wellFormed)

lemma digitsValue_nonneg: "list_all isDigit ds \<Longrightarrow> 0 \<le> digitsValue ds"
proof (induction ds rule: rev_induct)
  case Nil
  then show ?case by (simp add: digitsValue_def)
next
  case (snoc d ds)
  then have "0 \<le> digitVal d"
    by (simp add: isDigit_def digitVal_def word_le_def)
  with snoc show ?case
    by (simp add: digitsValue_def)
qed

lemma takeWhile_isDigit_all: "list_all isDigit (takeWhile isDigit t)"
  by (simp add: list_all_iff) (meson set_takeWhileD)

lemma parseFloat_wellFormed: "wellFormed (parseFloat str)"
proof -
  have "0 \<le> (of_int (digitsValue (takeWhile isDigit t)) :: rat) +
        of_int (digitsValue fp) / 10 ^ length fp"
    if "list_all isDigit fp" for t fp
    using that by (simp add: digitsValue_nonneg takeWhile_isDigit_all)
  moreover have "list_all isDigit
      (case r of [] \<Rightarrow> [] | c # cs \<Rightarrow> if c = of_char CHR ''.'' then takeWhile isDigit cs else [])"
    for r
    by (simp add: takeWhile_isDigit_all split: list.split)
  ultimately show ?thesis
    unfolding parseFloat_def Let_def
    by (auto simp: fround_wellFormed split: prod.split)
qed

lemma parse_wellFormed:
  "\<forall>v p'. parseExpression s p = Inr (v, p') \<longrightarrow> wellFormed v"
  "wellFormed l1 \<longrightarrow> (\<forall>v p'. parseExpression_loop s1 l1 p1 = Inr (v, p') \<longrightarrow> wellFormed v)"
  "\<forall>v p'. parseTerm s2 p2 = Inr (v, p') \<longrightarrow> wellFormed v"
  "wellFormed l3 \<longrightarrow> (\<forall>v p'. parseTerm_loop s3 l3 p3 = Inr (v, p') \<longrightarrow> wellFormed v)"
  "\<forall>v p'. parseFactor s4 p4 = Inr (v, p') \<longrightarrow> wellFormed v"
proof (induction s p and s1 l1 p1 and s2 p2 and s3 l3 p3 and s4 p4
    rule: parseExpression_parseExpression_loop_parseTerm_parseTerm_loop_parseFactor.induct)
  case (1 expression pos)
  show ?case
  proof (intro allI impI)
    fix v p'
    assume a: "parseExpression expression pos = Inr (v, p')"
    then obtain left pos' where t: "parseTerm expression pos = Inr (left, pos')"
      and l: "parseExpression_loop expression left pos' = Inr (v, p')"
      by (subst (asm) parseExpression.simps) (auto split: sum.splits)
    from 1(1) t have "wellFormed left"
      by blast
    with 1(2) [OF t refl] l show "wellFormed v"
      by blast
  qed
next
  case (2 expression left pos)
  show ?case
  proof (intro allI impI)
    fix v p'
    assume w: "wellFormed left"
      and a: "parseExpression_loop expression left pos = Inr (v, p')"
    show "wellFormed v"
    proof (cases "pos < length expression \<and> expression ! pos = of_char CHR ''+''")
      case True
      with a obtain x pos' where t: "parseTerm expression (pos + 1) = Inr (x, pos')"
        and l: "parseExpression_loop expression (add left x) pos' = Inr (v, p')"
        by (subst (asm) parseExpression_loop.simps) (auto split: sum.splits)
      from True 2(1) t have "wellFormed x"
        by blast
      with w have "wellFormed (add left x)"
        by (rule add_wellFormed)
      with True 2(2) [OF _ _ t refl] l show ?thesis
        by blast
    next
      case False
      note nplus = this
      show ?thesis
      proof (cases "pos < length expression \<and> expression ! pos = of_char CHR ''-''")
        case True
        with nplus a obtain x pos' where t: "parseTerm expression (pos + 1) = Inr (x, pos')"
          and l: "parseExpression_loop expression (sub left x) pos' = Inr (v, p')"
          by (subst (asm) parseExpression_loop.simps) (auto split: sum.splits)
        from True nplus 2(3) t have "wellFormed x"
          by blast
        with w have "wellFormed (sub left x)"
          by (rule sub_wellFormed)
        with True nplus 2(4) [OF _ _ _ t refl] l show ?thesis
          by blast
      next
        case False
        with nplus a have "v = left"
          by (subst (asm) parseExpression_loop.simps) (auto split: if_splits)
        with w show ?thesis
          by simp
      qed
    qed
  qed
next
  case (3 expression pos)
  show ?case
  proof (intro allI impI)
    fix v p'
    assume a: "parseTerm expression pos = Inr (v, p')"
    then obtain left pos' where t: "parseFactor expression pos = Inr (left, pos')"
      and l: "parseTerm_loop expression left pos' = Inr (v, p')"
      by (subst (asm) parseTerm.simps) (auto split: sum.splits)
    from 3(1) t have "wellFormed left"
      by blast
    with 3(2) [OF t refl] l show "wellFormed v"
      by blast
  qed
next
  case (4 expression left pos)
  show ?case
  proof (intro allI impI)
    fix v p'
    assume w: "wellFormed left"
      and a: "parseTerm_loop expression left pos = Inr (v, p')"
    show "wellFormed v"
    proof (cases "pos < length expression \<and> expression ! pos = of_char CHR ''*''")
      case True
      with a obtain x pos' where t: "parseFactor expression (pos + 1) = Inr (x, pos')"
        and l: "parseTerm_loop expression (mul left x) pos' = Inr (v, p')"
        by (subst (asm) parseTerm_loop.simps) (auto split: sum.splits)
      from True 4(1) t have "wellFormed x"
        by blast
      with w have "wellFormed (mul left x)"
        by (rule mul_wellFormed)
      with True 4(2) [OF _ _ t refl] l show ?thesis
        by blast
    next
      case False
      note ntimes = this
      show ?thesis
      proof (cases "pos < length expression \<and> expression ! pos = of_char CHR ''/''")
        case True
        with ntimes a obtain x pos' where t: "parseFactor expression (pos + 1) = Inr (x, pos')"
          and z: "\<not> isZero x"
          and l: "parseTerm_loop expression (divide_number left x) pos' = Inr (v, p')"
          by (subst (asm) parseTerm_loop.simps) (auto split: sum.splits if_splits)
        from True ntimes 4(3) t have "wellFormed x"
          by blast
        with w have "wellFormed (divide_number left x)"
          by (rule divide_wellFormed)
        with True ntimes 4(4) [OF _ _ _ t refl z] l show ?thesis
          by blast
      next
        case False
        with ntimes a have "v = left"
          by (subst (asm) parseTerm_loop.simps) (auto split: if_splits)
        with w show ?thesis
          by simp
      qed
    qed
  qed
next
  case (5 expression pos)
  show ?case
  proof (intro allI impI)
    fix v p'
    assume a: "parseFactor expression pos = Inr (v, p')"
    show "wellFormed v"
    proof (cases "pos < length expression \<and> expression ! pos = of_char CHR ''(''")
      case True
      with a obtain pos' where "parseExpression expression (pos + 1) = Inr (v, pos')"
        by (subst (asm) parseFactor.simps) (auto split: sum.splits if_splits)
      with True 5 show ?thesis
        by blast
    next
      case False
      with a have "\<exists>str. v = parseFloat str"
        by (subst (asm) parseFactor.simps) (auto simp: Let_def split: if_splits)
      then show ?thesis
        by (auto simp: parseFloat_wellFormed)
    qed
  qed
qed

lemma evaluateExpression_wellFormed:
  "evaluateExpression s = Inr v \<Longrightarrow> wellFormed v"
  using parse_wellFormed(1) [of s 0]
  by (auto simp: evaluateExpression_def split: sum.splits if_splits)

section \<open>The result formatter\<close>

text \<open>
  C6. When the three checks have passed and evaluation yields the value \<open>v\<close>: a \<open>v\<close>
  that is not finite is reported with the generic message; a finite \<open>v\<close> that is an
  integer is the result as it is; any other finite \<open>v\<close> of magnitude \<open>q\<close> becomes the
  number nearest to \<open>q\<close> rounded to six decimals (\<open>\<lfloor>q * 10^6 + 1/2\<rfloor> / 10^6\<close>), with the
  sign of \<open>v\<close>.
\<close>

theorem result_formatter:
  assumes "validChars (sanitize x)" and "length (sanitize x) \<le> 100"
    and "\<not> slashZero (sanitize x)"
    and "evaluateExpression (sanitize x) = Inr v"
  shows "calculate x =
     (case v of
        Finite sign q \<Rightarrow>
          if of_int \<lfloor>q\<rfloor> = q then \<lparr>result = Some v, error = None\<rparr>
          else \<lparr>result = Some (fround sign (of_int \<lfloor>q * 10 ^ 6 + 1 / 2\<rfloor> / 10 ^ 6)),
                error = None\<rparr>
      | _ \<Rightarrow> \<lparr>result = None, error = Some ERROR_INVALID_EXPRESSION\<rparr>)"
proof (cases v)
  case (Finite sign q)
  from assms(4) have "wellFormed v"
    by (rule evaluateExpression_wellFormed)
  with Finite have q: "0 \<le> q"
    by simp
  show ?thesis
  proof (cases "of_int \<lfloor>q\<rfloor> = q")
    case True
    with assms Finite show ?thesis
      by (simp add: calculate_def formatResult_def)
  next
    case False
    with q have "0 < q"
      by (cases "q = 0") auto
    then have "parseFloat (toFixed (Finite sign q)) =
               fround sign (of_int \<lfloor>q * 10 ^ 6 + 1 / 2\<rfloor> / 10 ^ 6)"
      by (rule parseFloat_toFixed)
    with assms Finite False show ?thesis
      by (simp add: calculate_def formatResult_def del: toFixed.simps)
  qed
qed (use assms in \<open>simp_all add: calculate_def formatResult_def\<close>)

lemma evaluate_tenth_plus_fifth:
  "evaluateExpression (ascii ''0.1+0.2'') =
     Inr (Finite False (1351079888211149 / 4503599627370496))"
  by (simp add: evaluateExpression_def ascii_def isDigit_def parse_eval number_eval)

lemma parseFloat_three_tenths:
  "parseFloat (ascii ''0.3'') = Finite False (5404319552844595 / 18014398509481984)"
  by (simp add: ascii_def isDigit_def number_eval)

lemma evaluate_point: "evaluateExpression (ascii ''.'') = Inr NaN"
  by (simp add: evaluateExpression_def ascii_def isDigit_def parse_eval number_eval)

lemma evaluate_ten_over_two: "evaluateExpression (ascii ''10/2'') = Inr (Finite False 5)"
  by (simp add: evaluateExpression_def ascii_def isDigit_def parse_eval number_eval)

theorem result_formatter_witness:
  "evaluateExpression (sanitize (ascii ''0.1 + 0.2'')) =
     Inr (Finite False (1351079888211149 / 4503599627370496)) \<and>
   calculate (ascii ''0.1 + 0.2'') = \<lparr>result = Some (parseFloat (ascii ''0.3'')), error = None\<rparr> \<and>
   parseFloat (ascii ''0.3'') \<noteq> Finite False (1351079888211149 / 4503599627370496) \<and>
   evaluateExpression (sanitize (ascii ''10 / 2'')) = Inr (Finite False 5) \<and>
   calculate (ascii ''10 / 2'') = \<lparr>result = Some (Finite False 5), error = None\<rparr> \<and>
   evaluateExpression (sanitize (ascii ''.'')) = Inr NaN \<and>
   calculate (ascii ''.'') = \<lparr>result = None, error = Some ERROR_INVALID_EXPRESSION\<rparr>"
proof -
  have s: "sanitize (ascii ''0.1 + 0.2'') = ascii ''0.1+0.2''"
    "sanitize (ascii ''10 / 2'') = ascii ''10/2''" "sanitize (ascii ''.'') = ascii ''.''"
    by (simp_all add: string_eval)
  have a: "validChars (sanitize (ascii ''0.1 + 0.2''))"
    "length (sanitize (ascii ''0.1 + 0.2'')) \<le> 100"
    "\<not> slashZero (sanitize (ascii ''0.1 + 0.2''))"
    by (simp_all add: string_eval)
  have b: "evaluateExpression (sanitize (ascii ''0.1 + 0.2'')) =
     Inr (Finite False (1351079888211149 / 4503599627370496))"
    by (simp only: s evaluate_tenth_plus_fifth)
  have c: "fround False
      (of_int \<lfloor>(1351079888211149 / 4503599627370496 :: rat) * 10 ^ 6 + 1 / 2\<rfloor> / 10 ^ 6) =
      Finite False (5404319552844595 / 18014398509481984)"
    by (simp add: number_eval)
  have d: "of_int \<lfloor>(1351079888211149 / 4503599627370496 :: rat)\<rfloor> \<noteq>
      (1351079888211149 / 4503599627370496 :: rat)"
    by (simp only: floor_rat_numeral) simp
  have r1: "calculate (ascii ''0.1 + 0.2'') =
      \<lparr>result = Some (Finite False (5404319552844595 / 18014398509481984)), error = None\<rparr>"
    using result_formatter [OF a b] by (simp only: number.case d if_False c)
  have a2: "validChars (sanitize (ascii ''10 / 2''))"
    "length (sanitize (ascii ''10 / 2'')) \<le> 100"
    "\<not> slashZero (sanitize (ascii ''10 / 2''))"
    by (simp_all add: string_eval)
  have b2: "evaluateExpression (sanitize (ascii ''10 / 2'')) = Inr (Finite False 5)"
    by (simp only: s evaluate_ten_over_two)
  have r2: "calculate (ascii ''10 / 2'') = \<lparr>result = Some (Finite False 5), error = None\<rparr>"
    using result_formatter [OF a2 b2] by simp
  have a3: "validChars (sanitize (ascii ''.''))" "length (sanitize (ascii ''.'')) \<le> 100"
    "\<not> slashZero (sanitize (ascii ''.''))"
    by (simp_all add: string_eval)
  have b3: "evaluateExpression (sanitize (ascii ''.'')) = Inr NaN"
    by (simp only: s evaluate_point)
  have r3: "calculate (ascii ''.'') = \<lparr>result = None, error = Some ERROR_INVALID_EXPRESSION\<rparr>"
    using result_formatter [OF a3 b3] by simp
  show ?thesis
    using b r1 b2 r2 b3 r3 by (simp add: parseFloat_three_tenths)
qed

section \<open>The evaluator on the texts of the grammar\<close>

lemma parseTerm_loop_stops:
  "stops_term rest \<Longrightarrow> parseTerm_loop (pre @ rest) v (length pre) = Inr (v, length pre)"
  by (subst parseTerm_loop.simps) (auto simp: stops_term_def nth_append split: list.splits)

lemma parseExpression_loop_stops:
  "stops_expression rest \<Longrightarrow>
   parseExpression_loop (pre @ rest) v (length pre) = Inr (v, length pre)"
  by (subst parseExpression_loop.simps)
     (auto simp: stops_expression_def nth_append split: list.splits)

lemma parseTerm_loop_times:
  "parseTerm_loop (pre @ of_char CHR ''*'' # rest) v (length pre) =
     (case parseFactor (pre @ of_char CHR ''*'' # rest) (length pre + 1) of
        Inl e \<Rightarrow> Inl e
      | Inr (x, pos') \<Rightarrow> parseTerm_loop (pre @ of_char CHR ''*'' # rest) (mul v x) pos')"
  by (subst parseTerm_loop.simps) simp

lemma parseTerm_loop_over:
  "parseTerm_loop (pre @ of_char CHR ''/'' # rest) v (length pre) =
     (case parseFactor (pre @ of_char CHR ''/'' # rest) (length pre + 1) of
        Inl e \<Rightarrow> Inl e
      | Inr (x, pos') \<Rightarrow>
          if isZero x then Inl DivisionByZero
          else parseTerm_loop (pre @ of_char CHR ''/'' # rest) (divide_number v x) pos')"
  by (subst parseTerm_loop.simps) simp

lemma parseExpression_loop_plus:
  "parseExpression_loop (pre @ of_char CHR ''+'' # rest) v (length pre) =
     (case parseTerm (pre @ of_char CHR ''+'' # rest) (length pre + 1) of
        Inl e \<Rightarrow> Inl e
      | Inr (x, pos') \<Rightarrow> parseExpression_loop (pre @ of_char CHR ''+'' # rest) (add v x) pos')"
  by (subst parseExpression_loop.simps) simp

lemma parseExpression_loop_minus:
  "parseExpression_loop (pre @ of_char CHR ''-'' # rest) v (length pre) =
     (case parseTerm (pre @ of_char CHR ''-'' # rest) (length pre + 1) of
        Inl e \<Rightarrow> Inl e
      | Inr (x, pos') \<Rightarrow> parseExpression_loop (pre @ of_char CHR ''-'' # rest) (sub v x) pos')"
  by (subst parseExpression_loop.simps) simp

text \<open>A literal of the grammar is read as the number nearest to its decimal value.\<close>

lemma parseFloat_literal:
  assumes "grammatical_factor (Number ip fp)"
  shows "parseFloat (text_of_factor (Number ip fp)) = fround False (literalValue ip fp)"
proof -
  from assms obtain c ip' where ip: "ip = c # ip'" and c: "isDigit c"
    and digits: "list_all isDigit ip"
    by (cases ip) auto
  show ?thesis
  proof (cases fp)
    case None
    have e: "ip = c # ip'"
      by (fact ip)
    have tw: "takeWhile isDigit ip = ip" "dropWhile isDigit ip = []"
      using digits by (simp_all add: list_all_iff)
    from c have d: "isDigit c \<or> c = of_char CHR ''.''"
      by simp
    have n: "ip \<noteq> []"
      by (simp add: ip)
    have "parseFloat ip =
        fround False (of_int (digitsValue ip) + of_int (digitsValue []) / 10 ^ length ([] :: jsstring))"
      using n
      by (simp only: parseFloat_unsigned [OF e d] tw Let_def list.case if_True if_False simp_thms)
    with None show ?thesis
      by (simp add: literalValue_def digitsValue_def)
  next
    case (Some ds)
    with assms have ds: "list_all isDigit ds"
      by simp
    have e: "ip @ of_char CHR ''.'' # ds = c # (ip' @ of_char CHR ''.'' # ds)"
      by (simp add: ip)
    from c have d: "isDigit c \<or> c = of_char CHR ''.''"
      by simp
    have n: "ip \<noteq> []"
      by (simp add: ip)
    have "parseFloat (ip @ of_char CHR ''.'' # ds) =
        fround False (of_int (digitsValue ip) + of_int (digitsValue ds) / 10 ^ length ds)"
      using n
      by (simp only: parseFloat_unsigned [OF e d] takeWhile_digits_point [OF digits]
          takeWhile_all_digits [OF ds] Let_def list.case if_True if_False simp_thms)
    with Some show ?thesis
      by (simp add: literalValue_def)
  qed
qed

lemma text_of_number:
  assumes "grammatical_factor (Number ip fp)"
  shows "text_of_factor (Number ip fp) \<noteq> []"
    and "list_all numberChar (text_of_factor (Number ip fp))"
    and "isDigit (hd (text_of_factor (Number ip fp)))"
  using assms
  by (cases ip; auto simp: numberChar_def list_all_iff split: option.splits)+

lemma parseFactor_number:
  assumes "grammatical_factor (Number ip fp)" and "stops_number rest"
  shows "parseFactor (pre @ text_of_factor (Number ip fp) @ rest) (length pre) =
         Inr (fround False (literalValue ip fp),
              length pre + length (text_of_factor (Number ip fp)))"
proof -
  define lit where "lit = text_of_factor (Number ip fp)"
  note t = text_of_number [OF assms(1), folded lit_def]
  from t(1) obtain c lit' where lit: "lit = c # lit'"
    by (cases lit) auto
  with t(3) have c: "c \<noteq> of_char CHR ''(''"
    by (auto simp: isDigit_def)
  from t(2) have "\<And>x. x \<in> set lit \<Longrightarrow> numberChar x"
    by (simp add: list_all_iff)
  then have "takeWhile numberChar (lit @ rest) = lit @ takeWhile numberChar rest"
    by (rule takeWhile_append2)
  also from assms(2) have "takeWhile numberChar rest = []"
    by (cases rest) (simp_all add: stops_number_def)
  finally have run: "takeWhile numberChar (drop (length pre) (pre @ lit @ rest)) = lit"
    by simp
  have scan: "scanNumber (pre @ lit @ rest) (length pre) = length pre + length lit"
    by (simp only: scanNumber_takeWhile run)
  have sub: "substring (pre @ lit @ rest) (length pre) (length pre + length lit) = lit"
    using substring_run [of "pre @ lit @ rest" "length pre" numberChar]
    by (simp only: run)
  have first: "(pre @ lit @ rest) ! length pre = c"
    by (simp add: lit)
  have "parseFactor (pre @ lit @ rest) (length pre) = Inr (parseFloat lit, length pre + length lit)"
    using c t(1)
    by (subst parseFactor.simps) (simp add: first scan sub Let_def del: of_char_Char)
  then show ?thesis
    by (simp only: lit_def parseFloat_literal [OF assms(1)])
qed

lemma stops_weaken:
  "stops_expression rest \<Longrightarrow> stops_term rest"
  "stops_term rest \<Longrightarrow> stops_number rest"
  by (auto simp: stops_expression_def stops_term_def stops_number_def split: list.splits)

lemma stops_operator:
  "stops_number (of_char CHR ''*'' # rest)" "stops_number (of_char CHR ''/'' # rest)"
  "stops_term (of_char CHR ''+'' # rest)" "stops_term (of_char CHR ''-'' # rest)"
  "stops_term (of_char CHR '')'' # rest)" "stops_expression (of_char CHR '')'' # rest)"
  by (simp_all add: stops_expression_def stops_term_def stops_number_def numberChar_def
      isDigit_def)

text \<open>
  On the text of a tree, followed by something that does not continue it, each rule
  consumes exactly that text; the term and expression rules then go on with their loops
  at its end. Errors of the tree are the errors of the rule.
\<close>

lemma parse_text:
  "grammatical_factor f \<longrightarrow>
     (\<forall>pre rest. stops_number rest \<longrightarrow>
        parseFactor (pre @ text_of_factor f @ rest) (length pre) =
          (case float_factor f of
             Inl e \<Rightarrow> Inl e
           | Inr v \<Rightarrow> Inr (v, length pre + length (text_of_factor f))))"
  "grammatical_term t \<longrightarrow>
     (\<forall>pre rest. stops_number rest \<longrightarrow>
        parseTerm (pre @ text_of_term t @ rest) (length pre) =
          (case float_term t of
             Inl e \<Rightarrow> Inl e
           | Inr v \<Rightarrow>
               parseTerm_loop (pre @ text_of_term t @ rest) v
                 (length pre + length (text_of_term t))))"
  "grammatical e \<longrightarrow>
     (\<forall>pre rest. stops_term rest \<longrightarrow>
        parseExpression (pre @ text_of e @ rest) (length pre) =
          (case float_value e of
             Inl e \<Rightarrow> Inl e
           | Inr v \<Rightarrow>
               parseExpression_loop (pre @ text_of e @ rest) v
                 (length pre + length (text_of e))))"
proof (induction f and t and e)
  case (Number ip fp)
  show ?case
    by (intro impI allI) (simp only: parseFactor_number float_factor.simps sum.case)
next
  case (Parens e)
  show ?case
  proof (intro impI allI)
    fix pre rest
    assume g: "grammatical_factor (Parens e)" and "stops_number rest"
    define s where "s = pre @ of_char CHR ''('' # text_of e @ of_char CHR '')'' # rest"
    define p where "p = length pre + 1 + length (text_of e)"
    from g have ge: "grammatical e"
      by simp
    have inner: "parseExpression s (length pre + 1) =
        (case float_value e of Inl e \<Rightarrow> Inl e | Inr v \<Rightarrow> parseExpression_loop s v p)"
      using Parens [rule_format, OF ge stops_operator(5), of "pre @ [of_char CHR ''('']" rest]
      by (simp add: s_def p_def cong: sum.case_cong)
    have "parseExpression_loop ((pre @ of_char CHR ''('' # text_of e) @ of_char CHR '')'' # rest) v
            (length (pre @ of_char CHR ''('' # text_of e)) =
          Inr (v, length (pre @ of_char CHR ''('' # text_of e))" for v
      using stops_operator(6) by (rule parseExpression_loop_stops)
    then have loop: "parseExpression_loop s v p = Inr (v, p)" for v
      by (simp add: s_def p_def)
    have close: "p < length s" "s ! p = of_char CHR '')''"
      using nth_append_length [of "pre @ of_char CHR ''('' # text_of e" "of_char CHR '')''" rest]
      by (simp_all add: s_def p_def)
    have "s ! length pre = of_char CHR ''(''" "length pre < length s"
      by (simp_all add: s_def)
    then have "parseFactor s (length pre) =
        (case parseExpression s (length pre + 1) of
           Inl e \<Rightarrow> Inl e
         | Inr (v, pos') \<Rightarrow>
             if pos' < length s \<and> s ! pos' = of_char CHR '')'' then Inr (v, pos' + 1)
             else Inl MissingClosingParenthesis)"
      by (subst parseFactor.simps) simp
    also have "\<dots> = (case float_value e of Inl e \<Rightarrow> Inl e | Inr v \<Rightarrow> Inr (v, p + 1))"
      unfolding inner by (cases "float_value e") (simp_all add: loop close)
    finally have "parseFactor s (length pre) =
        (case float_value e of Inl e \<Rightarrow> Inl e | Inr v \<Rightarrow> Inr (v, p + 1))" .
    then show "parseFactor (pre @ text_of_factor (Parens e) @ rest) (length pre) =
        (case float_factor (Parens e) of
           Inl e \<Rightarrow> Inl e
         | Inr v \<Rightarrow> Inr (v, length pre + length (text_of_factor (Parens e))))"
      by (simp add: s_def p_def add.assoc cong: sum.case_cong)
  qed
next
  case (Factor f)
  show ?case
  proof (intro impI allI)
    fix pre rest
    assume "grammatical_term (Factor f)" and r: "stops_number rest"
    then have gf: "grammatical_factor f"
      by simp
    from Factor [rule_format, OF gf r, of pre]
    have "parseFactor (pre @ text_of_factor f @ rest) (length pre) =
        (case float_factor f of
           Inl e \<Rightarrow> Inl e
         | Inr v \<Rightarrow> Inr (v, length pre + length (text_of_factor f)))"
      by simp
    then show "parseTerm (pre @ text_of_term (Factor f) @ rest) (length pre) =
        (case float_term (Factor f) of
           Inl e \<Rightarrow> Inl e
         | Inr v \<Rightarrow>
             parseTerm_loop (pre @ text_of_term (Factor f) @ rest) v
               (length pre + length (text_of_term (Factor f))))"
      by (subst parseTerm.simps) (simp split: sum.split)
  qed
next
  case (Times t f)
  show ?case
  proof (intro impI allI)
    fix pre rest
    assume g: "grammatical_term (Times t f)" and r: "stops_number rest"
    define s where "s = pre @ text_of_term t @ of_char CHR ''*'' # text_of_factor f @ rest"
    define p where "p = length pre + length (text_of_term t)"
    from g have gt: "grammatical_term t" and gf: "grammatical_factor f"
      by simp_all
    have left: "parseTerm s (length pre) =
        (case float_term t of Inl e \<Rightarrow> Inl e | Inr v \<Rightarrow> parseTerm_loop s v p)"
      using Times(1) [rule_format, OF gt stops_operator(1), of pre "text_of_factor f @ rest"]
      by (simp add: s_def p_def cong: sum.case_cong)
    have right: "parseFactor s (Suc p) =
        (case float_factor f of
           Inl e \<Rightarrow> Inl e
         | Inr v \<Rightarrow> Inr (v, p + 1 + length (text_of_factor f)))"
      using Times(2) [rule_format, OF gf r, of "pre @ text_of_term t @ [of_char CHR ''*'']"]
      by (simp add: s_def p_def cong: sum.case_cong)
    have step: "parseTerm_loop s v p =
        (case parseFactor s (Suc p) of
           Inl e \<Rightarrow> Inl e
         | Inr (x, pos') \<Rightarrow> parseTerm_loop s (mul v x) pos')" for v
      using parseTerm_loop_times [of "pre @ text_of_term t" "text_of_factor f @ rest" v]
      by (simp add: s_def p_def cong: sum.case_cong prod.case_cong)
    have "parseTerm s (length pre) =
        (case float_term (Times t f) of
           Inl e \<Rightarrow> Inl e
         | Inr v \<Rightarrow> parseTerm_loop s v (p + 1 + length (text_of_factor f)))"
      by (simp add: left step right split: sum.split)
    then show "parseTerm (pre @ text_of_term (Times t f) @ rest) (length pre) =
        (case float_term (Times t f) of
           Inl e \<Rightarrow> Inl e
         | Inr v \<Rightarrow>
             parseTerm_loop (pre @ text_of_term (Times t f) @ rest) v
               (length pre + length (text_of_term (Times t f))))"
      by (simp add: s_def p_def add.assoc cong: sum.case_cong)
  qed
next
  case (Over t f)
  show ?case
  proof (intro impI allI)
    fix pre rest
    assume g: "grammatical_term (Over t f)" and r: "stops_number rest"
    define s where "s = pre @ text_of_term t @ of_char CHR ''/'' # text_of_factor f @ rest"
    define p where "p = length pre + length (text_of_term t)"
    from g have gt: "grammatical_term t" and gf: "grammatical_factor f"
      by simp_all
    have left: "parseTerm s (length pre) =
        (case float_term t of Inl e \<Rightarrow> Inl e | Inr v \<Rightarrow> parseTerm_loop s v p)"
      using Over(1) [rule_format, OF gt stops_operator(2), of pre "text_of_factor f @ rest"]
      by (simp add: s_def p_def cong: sum.case_cong)
    have right: "parseFactor s (Suc p) =
        (case float_factor f of
           Inl e \<Rightarrow> Inl e
         | Inr v \<Rightarrow> Inr (v, p + 1 + length (text_of_factor f)))"
      using Over(2) [rule_format, OF gf r, of "pre @ text_of_term t @ [of_char CHR ''/'']"]
      by (simp add: s_def p_def cong: sum.case_cong)
    have step: "parseTerm_loop s v p =
        (case parseFactor s (Suc p) of
           Inl e \<Rightarrow> Inl e
         | Inr (x, pos') \<Rightarrow>
             if isZero x then Inl DivisionByZero
             else parseTerm_loop s (divide_number v x) pos')" for v
      using parseTerm_loop_over [of "pre @ text_of_term t" "text_of_factor f @ rest" v]
      by (simp add: s_def p_def cong: sum.case_cong prod.case_cong if_cong)
    have "parseTerm s (length pre) =
        (case float_term (Over t f) of
           Inl e \<Rightarrow> Inl e
         | Inr v \<Rightarrow> parseTerm_loop s v (p + 1 + length (text_of_factor f)))"
      by (simp add: left step right split: sum.split)
    then show "parseTerm (pre @ text_of_term (Over t f) @ rest) (length pre) =
        (case float_term (Over t f) of
           Inl e \<Rightarrow> Inl e
         | Inr v \<Rightarrow>
             parseTerm_loop (pre @ text_of_term (Over t f) @ rest) v
               (length pre + length (text_of_term (Over t f))))"
      by (simp add: s_def p_def add.assoc cong: sum.case_cong)
  qed
next
  case (Term t)
  show ?case
  proof (intro impI allI)
    fix pre rest
    assume g: "grammatical (Term t)" and r: "stops_term rest"
    define s where "s = pre @ text_of_term t @ rest"
    define p where "p = length pre + length (text_of_term t)"
    from g have gt: "grammatical_term t"
      by simp
    have left: "parseTerm s (length pre) =
        (case float_term t of Inl e \<Rightarrow> Inl e | Inr v \<Rightarrow> parseTerm_loop s v p)"
      using Term [rule_format, OF gt stops_weaken(2) [OF r], of pre]
      by (simp add: s_def p_def cong: sum.case_cong)
    have loop: "parseTerm_loop s v p = Inr (v, p)" for v
      using parseTerm_loop_stops [OF r, of "pre @ text_of_term t" v]
      by (simp add: s_def p_def)
    have "parseExpression s (length pre) =
        (case float_term t of Inl e \<Rightarrow> Inl e | Inr v \<Rightarrow> parseExpression_loop s v p)"
      by (subst parseExpression.simps) (simp add: left loop split: sum.split)
    then show "parseExpression (pre @ text_of (Term t) @ rest) (length pre) =
        (case float_value (Term t) of
           Inl e \<Rightarrow> Inl e
         | Inr v \<Rightarrow>
             parseExpression_loop (pre @ text_of (Term t) @ rest) v
               (length pre + length (text_of (Term t))))"
      by (simp add: s_def p_def add.assoc cong: sum.case_cong)
  qed
next
  case (Plus e t)
  show ?case
  proof (intro impI allI)
    fix pre rest
    assume g: "grammatical (Plus e t)" and r: "stops_term rest"
    define s where "s = pre @ text_of e @ of_char CHR ''+'' # text_of_term t @ rest"
    define p where "p = length pre + length (text_of e)"
    define q where "q = p + 1 + length (text_of_term t)"
    from g have ge: "grammatical e" and gt: "grammatical_term t"
      by simp_all
    have left: "parseExpression s (length pre) =
        (case float_value e of Inl e \<Rightarrow> Inl e | Inr v \<Rightarrow> parseExpression_loop s v p)"
      using Plus(1) [rule_format, OF ge stops_operator(3), of pre "text_of_term t @ rest"]
      by (simp add: s_def p_def cong: sum.case_cong)
    have right: "parseTerm s (Suc p) =
        (case float_term t of Inl e \<Rightarrow> Inl e | Inr v \<Rightarrow> parseTerm_loop s v q)"
      using Plus(2) [rule_format, OF gt stops_weaken(2) [OF r],
          of "pre @ text_of e @ [of_char CHR ''+'']"]
      by (simp add: s_def p_def q_def cong: sum.case_cong)
    have stop: "parseTerm_loop s v q = Inr (v, q)" for v
      using parseTerm_loop_stops
        [OF r, of "pre @ text_of e @ of_char CHR ''+'' # text_of_term t" v]
      by (simp add: s_def p_def q_def add.assoc)
    have step: "parseExpression_loop s v p =
        (case parseTerm s (Suc p) of
           Inl e \<Rightarrow> Inl e
         | Inr (x, pos') \<Rightarrow> parseExpression_loop s (add v x) pos')" for v
      using parseExpression_loop_plus [of "pre @ text_of e" "text_of_term t @ rest" v]
      by (simp add: s_def p_def cong: sum.case_cong prod.case_cong)
    have "parseExpression s (length pre) =
        (case float_value (Plus e t) of
           Inl e \<Rightarrow> Inl e
         | Inr v \<Rightarrow> parseExpression_loop s v q)"
      by (simp add: left step right stop split: sum.split)
    then show "parseExpression (pre @ text_of (Plus e t) @ rest) (length pre) =
        (case float_value (Plus e t) of
           Inl e \<Rightarrow> Inl e
         | Inr v \<Rightarrow>
             parseExpression_loop (pre @ text_of (Plus e t) @ rest) v
               (length pre + length (text_of (Plus e t))))"
      by (simp add: s_def p_def q_def add.assoc cong: sum.case_cong)
  qed
next
  case (Minus e t)
  show ?case
  proof (intro impI allI)
    fix pre rest
    assume g: "grammatical (Minus e t)" and r: "stops_term rest"
    define s where "s = pre @ text_of e @ of_char CHR ''-'' # text_of_term t @ rest"
    define p where "p = length pre + length (text_of e)"
    define q where "q = p + 1 + length (text_of_term t)"
    from g have ge: "grammatical e" and gt: "grammatical_term t"
      by simp_all
    have left: "parseExpression s (length pre) =
        (case float_value e of Inl e \<Rightarrow> Inl e | Inr v \<Rightarrow> parseExpression_loop s v p)"
      using Minus(1) [rule_format, OF ge stops_operator(4), of pre "text_of_term t @ rest"]
      by (simp add: s_def p_def cong: sum.case_cong)
    have right: "parseTerm s (Suc p) =
        (case float_term t of Inl e \<Rightarrow> Inl e | Inr v \<Rightarrow> parseTerm_loop s v q)"
      using Minus(2) [rule_format, OF gt stops_weaken(2) [OF r],
          of "pre @ text_of e @ [of_char CHR ''-'']"]
      by (simp add: s_def p_def q_def cong: sum.case_cong)
    have stop: "parseTerm_loop s v q = Inr (v, q)" for v
      using parseTerm_loop_stops
        [OF r, of "pre @ text_of e @ of_char CHR ''-'' # text_of_term t" v]
      by (simp add: s_def p_def q_def add.assoc)
    have step: "parseExpression_loop s v p =
        (case parseTerm s (Suc p) of
           Inl e \<Rightarrow> Inl e
         | Inr (x, pos') \<Rightarrow> parseExpression_loop s (sub v x) pos')" for v
      using parseExpression_loop_minus [of "pre @ text_of e" "text_of_term t @ rest" v]
      by (simp add: s_def p_def cong: sum.case_cong prod.case_cong)
    have "parseExpression s (length pre) =
        (case float_value (Minus e t) of
           Inl e \<Rightarrow> Inl e
         | Inr v \<Rightarrow> parseExpression_loop s v q)"
      by (simp add: left step right stop split: sum.split)
    then show "parseExpression (pre @ text_of (Minus e t) @ rest) (length pre) =
        (case float_value (Minus e t) of
           Inl e \<Rightarrow> Inl e
         | Inr v \<Rightarrow>
             parseExpression_loop (pre @ text_of (Minus e t) @ rest) v
               (length pre + length (text_of (Minus e t))))"
      by (simp add: s_def p_def q_def add.assoc cong: sum.case_cong)
  qed
qed

text \<open>On the text of a grammatical tree the evaluator computes the binary64 value.\<close>

lemma evaluateExpression_text:
  assumes "grammatical e"
  shows "evaluateExpression (text_of e) = float_value e"
proof -
  have "stops_term []" "stops_expression []"
    by (simp_all add: stops_term_def stops_expression_def)
  with assms parse_text(3) [of e] have
    "parseExpression ([] @ text_of e @ []) (length ([] :: jsstring)) =
     (case float_value e of
        Inl e \<Rightarrow> Inl e
      | Inr v \<Rightarrow>
          parseExpression_loop ([] @ text_of e @ []) v
            (length ([] :: jsstring) + length (text_of e)))"
    by blast
  moreover have "parseExpression_loop (text_of e @ []) v (length (text_of e)) =
      Inr (v, length (text_of e))" for v
    using \<open>stops_expression []\<close> by (rule parseExpression_loop_stops)
  ultimately have "parseExpression (text_of e) 0 =
      (case float_value e of Inl e \<Rightarrow> Inl e | Inr v \<Rightarrow> Inr (v, length (text_of e)))"
    by (simp split: sum.split)
  then show ?thesis
    by (simp add: evaluateExpression_def split: sum.split)
qed

section \<open>The result on the texts of the grammar\<close>

lemma text_allowed:
  "grammatical_factor f \<longrightarrow> text_of_factor f \<noteq> [] \<and> list_all allowedChar (text_of_factor f)"
  "grammatical_term t \<longrightarrow> text_of_term t \<noteq> [] \<and> list_all allowedChar (text_of_term t)"
  "grammatical e \<longrightarrow> text_of e \<noteq> [] \<and> list_all allowedChar (text_of e)"
proof (induction f and t and e)
  case (Number ip fp)
  show ?case
    by (cases fp) (auto simp: allowedChar_def list_all_iff)
qed (simp_all add: allowedChar_def)

lemma text_validChars: "grammatical e \<Longrightarrow> validChars (text_of e)"
  using text_allowed(3) [of e] by (simp add: validChars_def)

lemma calculate_on_text:
  assumes "grammatical e" and "sanitize x = text_of e" and "length (text_of e) \<le> 100"
    and "\<not> sublist (ascii ''/0'') (text_of e)"
  shows "calculate x =
     (case float_value e of
        Inl err \<Rightarrow> \<lparr>result = None, error = Some ERROR_INVALID_EXPRESSION\<rparr>
      | Inr v \<Rightarrow>
          \<lparr>result = formatResult v,
           error = (if formatResult v = None then Some ERROR_INVALID_EXPRESSION else None)\<rparr>)"
proof -
  have v: "validChars (sanitize x)"
    using assms(1,2) by (simp add: text_validChars)
  have "\<not> slashZero (sanitize x)"
    using assms(2,4) slashZero_sanitize [of x] by simp
  moreover have "evaluateExpression (sanitize x) = float_value e"
    using assms(1,2) by (simp add: evaluateExpression_text)
  ultimately show ?thesis
    using v assms(2,3) by (simp add: calculate_def Let_def split: sum.split)
qed


section \<open>Small integers are computed exactly\<close>

lemma bitlen_nonneg: "0 \<le> bitlen n"
  by (induction n rule: bitlen.induct) (subst bitlen.simps, simp)

lemma bitlen_le: "n < 2 ^ k \<Longrightarrow> bitlen n \<le> int k"
proof (induction k arbitrary: n)
  case 0
  then show ?case
    by (subst bitlen.simps) simp
next
  case (Suc k)
  show ?case
  proof (cases "n \<le> 0")
    case True
    then show ?thesis
      by (subst bitlen.simps) simp
  next
    case False
    from Suc.prems have "n div 2 < 2 ^ k"
      by simp
    then have "bitlen (n div 2) \<le> int k"
      by (rule Suc.IH)
    with False show ?thesis
      by (subst bitlen.simps) simp
  qed
qed

lemma roundHalfEven_of_int: "roundHalfEven (of_int m) = m"
  by (simp add: roundHalfEven_def)

lemma fround_smallInt:
  assumes "0 \<le> q" and "smallInt q"
  shows "fround sign q = Finite sign q"
proof (cases "q = 0")
  case True
  then show ?thesis
    by (simp add: fround_def)
next
  case False
  from assms(2) obtain n where n: "q = of_int n" and small: "\<bar>q\<bar> < 2 ^ 53"
    unfolding smallInt_def by metis
  from assms(1) False n have pos: "0 < n"
    by simp
  from small n pos have "n < 2 ^ 53"
    by (simp add: of_int_less_numeral_power_cancel_iff)
  then have le: "bitlen n \<le> 53"
    using bitlen_le [of n 53] by simp
  define k where "k = nat (53 - bitlen n)"
  have b: "binade q = bitlen n - 1"
    using pos by (simp add: binade_def n)
  have ex: "max (binade q - 52) (- 1074) = - int k"
    using le bitlen_nonneg [of n] by (simp add: b k_def)
  have p: "(2::rat) powi (- int k) = 1 / 2 ^ k"
    by (simp add: power_int_minus field_simps)
  have "q / 2 powi (- int k) = of_int (n * 2 ^ k)"
    by (simp add: p n)
  then have "of_int (roundHalfEven (q / 2 powi (- int k))) * 2 powi (- int k) = q"
    by (simp only: roundHalfEven_of_int) (simp add: p n)
  moreover from small assms(1) have "\<not> 2 ^ 1024 \<le> q"
    by (simp add: not_le)
  ultimately show ?thesis
    using False by (simp add: fround_def ex Let_def)
qed

lemma exactly_literal:
  assumes "grammatical_factor (Number ip fp)" and "integral_factor (Number ip fp)"
  shows "exactly (fround False (literalValue ip fp)) (literalValue ip fp)"
proof -
  from assms have s: "smallInt (literalValue ip fp)" and "fp = None"
    and "list_all isDigit ip"
    by auto
  then have "0 \<le> literalValue ip fp"
    by (simp add: literalValue_def digitsValue_nonneg)
  with s show ?thesis
    by (simp add: fround_smallInt exactly_def)
qed

lemma smallInt_abs: "smallInt r \<Longrightarrow> smallInt \<bar>r\<bar>"
  unfolding smallInt_def by (metis abs_idempotent of_int_abs of_int_floor_cancel)

lemma smallInt_minus: "smallInt r \<Longrightarrow> smallInt (- r)"
  using smallInt_abs [of r] smallInt_abs [of "- r"]
  unfolding smallInt_def by (metis abs_minus_cancel of_int_floor_cancel of_int_minus)

lemma exactly_add:
  assumes "exactly x a" and "exactly y b" and "smallInt (a + b)"
  shows "exactly (add x y) (a + b)"
proof -
  from assms(1) obtain s p where x: "x = Finite s p" and a: "a = (if s then - p else p)"
    by (cases x) (auto simp: exactly_def)
  from assms(2) obtain t q where y: "y = Finite t q" and b: "b = (if t then - q else q)"
    by (cases y) (auto simp: exactly_def)
  show ?thesis
  proof (cases "a + b = 0")
    case True
    with assms(3) show ?thesis
      by (simp add: x y a b exactly_def)
  next
    case False
    have "fround (a + b < 0) \<bar>a + b\<bar> = Finite (a + b < 0) \<bar>a + b\<bar>"
      using smallInt_abs [OF assms(3)] by (simp add: fround_smallInt)
    with False have "add x y = Finite (a + b < 0) \<bar>a + b\<bar>"
      by (simp add: x y a b froundSigned_def Let_def)
    with assms(3) show ?thesis
      by (simp add: exactly_def)
  qed
qed

lemma exactly_sub:
  assumes "exactly x a" and "exactly y b" and "smallInt (a - b)"
  shows "exactly (sub x y) (a - b)"
proof -
  from assms(2) have "exactly (negate y) (- b)"
    by (cases y) (auto simp: exactly_def smallInt_minus)
  with assms(1) have "exactly (add x (negate y)) (a + - b)"
    using assms(3) by (intro exactly_add) simp_all
  then show ?thesis
    by (simp add: sub_def)
qed

lemma exactly_mul:
  assumes "exactly x a" and "exactly y b" and "smallInt (a * b)"
  shows "exactly (mul x y) (a * b)"
proof -
  from assms(1) obtain s p where x: "x = Finite s p" and a: "a = (if s then - p else p)"
    and p: "0 \<le> p"
    by (cases x) (auto simp: exactly_def)
  from assms(2) obtain t q where y: "y = Finite t q" and b: "b = (if t then - q else q)"
    and q: "0 \<le> q"
    by (cases y) (auto simp: exactly_def)
  have "\<bar>a * b\<bar> = p * q"
    using p q by (simp add: a b abs_mult)
  with smallInt_abs [OF assms(3)] have "smallInt (p * q)"
    by simp
  with p q have "mul x y = Finite (s \<noteq> t) (p * q)"
    by (simp add: x y fround_smallInt)
  with assms(3) p q show ?thesis
    by (auto simp: exactly_def a b)
qed

lemma exactly_divide:
  assumes "exactly x a" and "exactly y b" and "b \<noteq> 0" and "smallInt (a / b)"
  shows "\<not> isZero y" and "exactly (divide_number x y) (a / b)"
proof -
  from assms(1) obtain s p where x: "x = Finite s p" and a: "a = (if s then - p else p)"
    and p: "0 \<le> p"
    by (cases x) (auto simp: exactly_def)
  from assms(2) obtain t q where y: "y = Finite t q" and b: "b = (if t then - q else q)"
    and q: "0 \<le> q"
    by (cases y) (auto simp: exactly_def)
  from assms(3) have nz: "q \<noteq> 0"
    by (auto simp: b split: if_splits)
  then show "\<not> isZero y"
    by (simp add: y)
  have "\<bar>a / b\<bar> = p / q"
    using p q by (simp add: a b)
  with smallInt_abs [OF assms(4)] have "smallInt (p / q)"
    by simp
  with p q nz have "divide_number x y = Finite (s \<noteq> t) (p / q)"
    by (simp add: x y fround_smallInt)
  with assms(4) p q show "exactly (divide_number x y) (a / b)"
    by (auto simp: exactly_def a b)
qed

text \<open>On an integral tree the binary64 value is the mathematical value.\<close>

lemma float_exact:
  "grammatical_factor f \<and> integral_factor f \<longrightarrow>
     (\<exists>r v. exact_factor f = Some r \<and> float_factor f = Inr v \<and> exactly v r)"
  "grammatical_term t \<and> integral_term t \<longrightarrow>
     (\<exists>r v. exact_term t = Some r \<and> float_term t = Inr v \<and> exactly v r)"
  "grammatical e \<and> integral e \<longrightarrow>
     (\<exists>r v. exact e = Some r \<and> float_value e = Inr v \<and> exactly v r)"
proof (induction f and t and e)
  case (Number ip fp)
  show ?case
    using exactly_literal [of ip fp] by auto
next
  case (Parens e)
  then show ?case by simp
next
  case (Factor f)
  then show ?case by simp
next
  case (Times t f)
  show ?case
  proof (intro impI)
    assume g: "grammatical_term (Times t f) \<and> integral_term (Times t f)"
    with Times obtain a x b y where
      t: "exact_term t = Some a" "float_term t = Inr x" "exactly x a" and
      f: "exact_factor f = Some b" "float_factor f = Inr y" "exactly y b"
      by auto
    from g t(1) f(1) have "smallInt (a * b)"
      by simp
    with t(3) f(3) have "exactly (mul x y) (a * b)"
      by (rule exactly_mul)
    with t f show "\<exists>r v. exact_term (Times t f) = Some r \<and>
        float_term (Times t f) = Inr v \<and> exactly v r"
      by simp
  qed
next
  case (Over t f)
  show ?case
  proof (intro impI)
    assume g: "grammatical_term (Over t f) \<and> integral_term (Over t f)"
    with Over obtain a x b y where
      t: "exact_term t = Some a" "float_term t = Inr x" "exactly x a" and
      f: "exact_factor f = Some b" "float_factor f = Inr y" "exactly y b"
      by auto
    from g t(1) f(1) have nz: "b \<noteq> 0" and "smallInt (a / b)"
      by (auto split: if_splits)
    with t(3) f(3) have "\<not> isZero y" "exactly (divide_number x y) (a / b)"
      by (simp_all add: exactly_divide)
    with t f nz show "\<exists>r v. exact_term (Over t f) = Some r \<and>
        float_term (Over t f) = Inr v \<and> exactly v r"
      by simp
  qed
next
  case (Term t)
  then show ?case by simp
next
  case (Plus e t)
  show ?case
  proof (intro impI)
    assume g: "grammatical (Plus e t) \<and> integral (Plus e t)"
    with Plus obtain a x b y where
      e: "exact e = Some a" "float_value e = Inr x" "exactly x a" and
      t: "exact_term t = Some b" "float_term t = Inr y" "exactly y b"
      by auto
    from g e(1) t(1) have "smallInt (a + b)"
      by simp
    with e(3) t(3) have "exactly (add x y) (a + b)"
      by (rule exactly_add)
    with e t show "\<exists>r v. exact (Plus e t) = Some r \<and>
        float_value (Plus e t) = Inr v \<and> exactly v r"
      by simp
  qed
next
  case (Minus e t)
  show ?case
  proof (intro impI)
    assume g: "grammatical (Minus e t) \<and> integral (Minus e t)"
    with Minus obtain a x b y where
      e: "exact e = Some a" "float_value e = Inr x" "exactly x a" and
      t: "exact_term t = Some b" "float_term t = Inr y" "exactly y b"
      by auto
    from g e(1) t(1) have "smallInt (a - b)"
      by simp
    with e(3) t(3) have "exactly (sub x y) (a - b)"
      by (rule exactly_sub)
    with e t show "\<exists>r v. exact (Minus e t) = Some r \<and>
        float_value (Minus e t) = Inr v \<and> exactly v r"
      by simp
  qed
qed

lemma formatResult_exactly:
  assumes "exactly v r"
  shows "formatResult v = Some v"
proof -
  from assms obtain s q where v: "v = Finite s q" and r: "r = (if s then - q else q)"
    and q: "0 \<le> q"
    by (cases v) (auto simp: exactly_def)
  from assms have "smallInt \<bar>r\<bar>"
    by (simp add: exactly_def smallInt_abs)
  moreover from q have "\<bar>r\<bar> = q"
    by (simp add: r)
  ultimately have "of_int \<lfloor>q\<rfloor> = q"
    by (simp add: smallInt_def)
  then show ?thesis
    by (simp add: formatResult_def v)
qed

section \<open>The rounding is to a nearest binary64 number\<close>

lemma bitlen_bounds:
  "0 < n \<Longrightarrow> 2 ^ nat (bitlen n - 1) \<le> n \<and> n < 2 ^ nat (bitlen n)"
proof (induction n rule: bitlen.induct)
  case (1 n)
  show ?case
  proof (cases "n div 2 \<le> 0")
    case True
    with 1(2) have "n = 1"
      by presburger
    then show ?thesis
      by (simp add: bitlen.simps)
  next
    case False
    define b where "b = bitlen (n div 2)"
    from False 1 have ih: "2 ^ nat (b - 1) \<le> n div 2" "n div 2 < 2 ^ nat b"
      by (simp_all add: b_def)
    have b: "1 \<le> b"
      using False unfolding b_def by (subst bitlen.simps) (simp add: bitlen_nonneg)
    have n: "bitlen n = 1 + b"
      using 1(2) unfolding b_def by (subst bitlen.simps) simp
    from b have e: "nat (1 + b - 1) = Suc (nat (b - 1))" "nat (1 + b) = Suc (nat b)"
      by simp_all
    from b have "nat b = Suc (nat (b - 1))"
      by simp
    then have p: "(2::int) ^ nat b = 2 * 2 ^ nat (b - 1)"
      by simp
    from ih have "2 * 2 ^ nat (b - 1) \<le> n" "n < 2 * 2 ^ nat b"
      by presburger+
    then show ?thesis
      by (simp add: n e p)
  qed
qed

lemma binade_bounds:
  assumes "0 < q"
  shows "2 powi binade q \<le> q" and "q < 2 powi (binade q + 1)"
proof -
  have *: "2 powi binade q \<le> q \<and> q < 2 powi (binade q + 1)"
  proof (cases "1 \<le> q")
    case True
    define n where "n = \<lfloor>q\<rfloor>"
    from True have n: "0 < n"
      unfolding n_def by simp
    have b: "binade q = bitlen n - 1"
      using True by (simp add: binade_def n_def)
    from n have l: "1 \<le> bitlen n"
      by (subst bitlen.simps) (simp add: bitlen_nonneg)
    note bb = bitlen_bounds [OF n]
    have "(2::rat) powi (bitlen n - 1) = of_int (2 ^ nat (bitlen n - 1))"
      using l by (simp add: power_int_def)
    also from bb have "\<dots> \<le> of_int n"
      by (simp only: of_int_le_iff)
    also have "\<dots> \<le> q"
      unfolding n_def by simp
    finally have lo: "2 powi (bitlen n - 1) \<le> q" .
    from bb have "n + 1 \<le> 2 ^ nat (bitlen n)"
      by simp
    then have "(of_int (n + 1) :: rat) \<le> of_int (2 ^ nat (bitlen n))"
      by (simp only: of_int_le_iff)
    moreover have "q < of_int (n + 1)"
      unfolding n_def by linarith
    moreover have "(2::rat) powi (bitlen n - 1 + 1) = of_int (2 ^ nat (bitlen n))"
      using l by (simp add: power_int_def)
    ultimately have "q < 2 powi (bitlen n - 1 + 1)"
      by simp
    with lo show ?thesis
      by (simp only: b)
  next
    case False
    define m where "m = \<lceil>1 / q\<rceil> - 1"
    from False assms have "1 < 1 / q"
      by simp
    then have m: "0 < m"
      unfolding m_def by (simp add: less_ceiling_iff)
    have b: "binade q = - bitlen m"
      using False by (simp add: binade_def m_def)
    from m have l: "1 \<le> bitlen m"
      by (subst bitlen.simps) (simp add: bitlen_nonneg)
    note bb = bitlen_bounds [OF m]
    have up: "1 / q \<le> of_int (m + 1)"
      unfolding m_def by simp
    have low: "of_int m < 1 / q"
      unfolding m_def by linarith
    from bb have "(of_int (m + 1) :: rat) \<le> of_int (2 ^ nat (bitlen m))"
      by (simp only: of_int_le_iff) simp
    with up have "1 / q \<le> 2 ^ nat (bitlen m)"
      by simp
    with assms have "1 / 2 ^ nat (bitlen m) \<le> q"
      by (simp add: field_simps)
    moreover have "(2::rat) powi (- bitlen m) = 1 / 2 ^ nat (bitlen m)"
      using l by (simp add: power_int_def field_simps)
    ultimately have lo: "2 powi (- bitlen m) \<le> q"
      by simp
    from bb have "(of_int (2 ^ nat (bitlen m - 1)) :: rat) \<le> of_int m"
      by (simp only: of_int_le_iff)
    then have "(2::rat) ^ nat (bitlen m - 1) \<le> of_int m"
      by (simp only: of_int_power of_int_numeral)
    with low have "2 ^ nat (bitlen m - 1) < 1 / q"
      by linarith
    with assms have "q < 1 / 2 ^ nat (bitlen m - 1)"
      by (simp add: field_simps)
    moreover have "(2::rat) powi (- bitlen m + 1) = 1 / 2 ^ nat (bitlen m - 1)"
      using l by (simp add: power_int_def field_simps nat_diff_distrib)
    ultimately have "q < 2 powi (- bitlen m + 1)"
      by simp
    with lo show ?thesis
      by (simp only: b)
  qed
  from * show "2 powi binade q \<le> q" and "q < 2 powi (binade q + 1)"
    by simp_all
qed

lemma roundHalfEven_error: "\<bar>of_int (roundHalfEven r) - r\<bar> \<le> 1 / 2"
proof -
  have "of_int \<lfloor>r\<rfloor> \<le> r" "r < of_int \<lfloor>r\<rfloor> + 1"
    by linarith+
  then show ?thesis
    by (auto simp: roundHalfEven_def Let_def)
qed

text \<open>
  A rounded magnitude is a multiple of the unit in the last place by an integer of at
  most 53 bits, and differs from the exact one by at most half that unit.
\<close>

lemma fround_nearest:
  assumes "0 < q" and "fround sign q = Finite sign' r"
  defines "ulp \<equiv> 2 powi max (binade q - 52) (- 1074)"
  shows "sign' = sign" and "\<bar>r - q\<bar> \<le> ulp / 2"
    and "\<exists>m. r = of_int m * ulp \<and> 0 \<le> m \<and> m \<le> 2 ^ 53"
proof -
  define m where "m = roundHalfEven (q / ulp)"
  have u: "0 < ulp"
    by (simp add: ulp_def)
  from assms(1,2) have r: "r = of_int m * ulp" and s: "sign' = sign"
    by (auto simp: fround_def Let_def m_def ulp_def split: if_splits)
  show "sign' = sign"
    by (fact s)
  have "\<bar>of_int m - q / ulp\<bar> \<le> 1 / 2"
    unfolding m_def by (rule roundHalfEven_error)
  then have "\<bar>of_int m - q / ulp\<bar> * ulp \<le> 1 / 2 * ulp"
    using u by (intro mult_right_mono) simp_all
  moreover have "\<bar>of_int m - q / ulp\<bar> * ulp = \<bar>r - q\<bar>"
  proof -
    have "\<bar>r - q\<bar> = \<bar>(of_int m - q / ulp) * ulp\<bar>"
      using u by (simp add: r left_diff_distrib)
    also have "\<dots> = \<bar>of_int m - q / ulp\<bar> * ulp"
      using u by (simp add: abs_mult)
    finally show ?thesis
      by simp
  qed
  ultimately show "\<bar>r - q\<bar> \<le> ulp / 2"
    by simp
  have "2 powi (binade q - 52) \<le> ulp"
    unfolding ulp_def by (intro power_int_increasing) simp_all
  then have "2 ^ 53 * 2 powi (binade q - 52) \<le> 2 ^ 53 * ulp"
    by (intro mult_left_mono) simp_all
  moreover have "q < 2 powi (binade q + 1)"
    using assms(1) by (rule binade_bounds)
  moreover have "(2::rat) powi (binade q + 1) = 2 ^ 53 * 2 powi (binade q - 52)"
    by (simp add: power_int_add power_int_diff)
  ultimately have "q < 2 ^ 53 * ulp"
    by linarith
  with u have x: "q / ulp < 2 ^ 53"
    by (simp add: pos_divide_less_eq)
  from assms(1) u have "0 \<le> q / ulp"
    by simp
  then have "0 \<le> m"
    unfolding m_def by (rule roundHalfEven_nonneg)
  have "(of_int \<lfloor>q / ulp\<rfloor> :: rat) \<le> q / ulp"
    by simp
  with x have "(of_int \<lfloor>q / ulp\<rfloor> :: rat) < of_int (2 ^ 53)"
    by simp
  then have "\<lfloor>q / ulp\<rfloor> < 2 ^ 53"
    by (simp only: of_int_less_iff)
  moreover have "m \<le> \<lfloor>q / ulp\<rfloor> + 1"
    unfolding m_def by (simp add: roundHalfEven_def Let_def)
  ultimately have "m \<le> 2 ^ 53"
    by linarith
  with r \<open>0 \<le> m\<close> show "\<exists>m. r = of_int m * ulp \<and> 0 \<le> m \<and> m \<le> 2 ^ 53"
    by blast
qed

section \<open>The value of a grammatical text\<close>

text \<open>
  C1, as the claim states it: on every text of the grammar with at most 100 characters,
  without \<open>/0\<close> and without a zero divisor, the result is within \<open>10^-6\<close> of the
  mathematical value. The literal 9007199254740993 (\<open>2^53 + 1\<close>) is no binary64
  number and is read as 9007199254740992: the difference below is 1, the result is 0.
\<close>

theorem correct_value_counterexample:
  "grammatical (Minus (Term (Factor (Number (ascii ''9007199254740993'') None)))
                  (Factor (Number (ascii ''9007199254740992'') None))) \<and>
   sanitize (ascii ''9007199254740993-9007199254740992'') =
     text_of (Minus (Term (Factor (Number (ascii ''9007199254740993'') None)))
                (Factor (Number (ascii ''9007199254740992'') None))) \<and>
   length (sanitize (ascii ''9007199254740993-9007199254740992'')) \<le> 100 \<and>
   \<not> sublist (ascii ''/0'') (sanitize (ascii ''9007199254740993-9007199254740992'')) \<and>
   exact (Minus (Term (Factor (Number (ascii ''9007199254740993'') None)))
            (Factor (Number (ascii ''9007199254740992'') None))) = Some 1 \<and>
   calculate (ascii ''9007199254740993-9007199254740992'') =
     \<lparr>result = Some (Finite False 0), error = None\<rparr> \<and>
   \<not> \<bar>valueOf (Finite False 0) - 1\<bar> \<le> 1 / 10 ^ 6"
proof -
  have s: "sanitize (ascii ''9007199254740993-9007199254740992'') =
      ascii ''9007199254740993-9007199254740992''"
    by (simp add: string_eval)
  have a: "validChars (ascii ''9007199254740993-9007199254740992'')"
    "\<not> slashZero (ascii ''9007199254740993-9007199254740992'')"
    "length (ascii ''9007199254740993-9007199254740992'') = 33"
    by (simp_all add: string_eval)
  have b: "\<not> sublist (ascii ''/0'') (ascii ''9007199254740993-9007199254740992'')"
    by (simp add: ascii_def sublist_Cons_right)
  have c: "evaluateExpression (ascii ''9007199254740993-9007199254740992'') =
      Inr (Finite False 0)"
    by (simp add: evaluateExpression_def ascii_def isDigit_def parse_eval number_eval)
  have d: "calculate (ascii ''9007199254740993-9007199254740992'') =
      \<lparr>result = Some (Finite False 0), error = None\<rparr>"
    by (simp add: calculate_def s a c formatResult_def)
  have e: "grammatical (Minus (Term (Factor (Number (ascii ''9007199254740993'') None)))
                  (Factor (Number (ascii ''9007199254740992'') None)))"
    "exact (Minus (Term (Factor (Number (ascii ''9007199254740993'') None)))
            (Factor (Number (ascii ''9007199254740992'') None))) = Some 1"
    by (simp_all add: ascii_def isDigit_def literalValue_def digitsValue_def digitVal_def)
  have t: "text_of (Minus (Term (Factor (Number (ascii ''9007199254740993'') None)))
                (Factor (Number (ascii ''9007199254740992'') None))) =
      ascii ''9007199254740993-9007199254740992''"
    by (simp add: ascii_def)
  have f: "\<not> \<bar>valueOf (Finite False 0) - 1\<bar> \<le> 1 / 10 ^ 6"
    by simp
  show ?thesis
    by (simp only: s t a b d e f simp_thms)
qed

text \<open>
  C1, amended. On every text of the grammar, with white space anywhere, that has at most
  100 characters and no \<open>/0\<close>: when the evaluation meets no zero divisor, the outcome
  is the value of the tree in binary64 arithmetic, with the precedence and the left
  associativity of the grammar and with parentheses overriding them, as the result
  formatter presents it; and when the tree is integral, the result is exactly its
  mathematical value.
\<close>

theorem calculate_grammatical:
  assumes "grammatical e" and "sanitize x = text_of e" and "length (text_of e) \<le> 100"
    and "\<not> sublist (ascii ''/0'') (text_of e)"
  shows "(float_value e = Inr v \<longrightarrow>
          calculate x =
            \<lparr>result = formatResult v,
             error = (if formatResult v = None then Some ERROR_INVALID_EXPRESSION else None)\<rparr>) \<and>
         (integral e \<longrightarrow>
          (\<exists>w. calculate x = \<lparr>result = Some w, error = None\<rparr> \<and> isFinite w \<and>
               exact e = Some (valueOf w)))"
proof (intro conjI impI)
  assume "float_value e = Inr v"
  with calculate_on_text [OF assms] show "calculate x =
      \<lparr>result = formatResult v,
       error = (if formatResult v = None then Some ERROR_INVALID_EXPRESSION else None)\<rparr>"
    by simp
next
  assume "integral e"
  with assms(1) float_exact(3) [of e] obtain r w where
    w: "exact e = Some r" "float_value e = Inr w" "exactly w r"
    by blast
  from w(3) have "formatResult w = Some w"
    by (rule formatResult_exactly)
  with calculate_on_text [OF assms] w(2)
  have "calculate x = \<lparr>result = Some w, error = None\<rparr>"
    by simp
  moreover from w(1,3) have "isFinite w" "exact e = Some (valueOf w)"
    by (simp_all add: exactly_def)
  ultimately show "\<exists>w. calculate x = \<lparr>result = Some w, error = None\<rparr> \<and> isFinite w \<and>
      exact e = Some (valueOf w)"
    by blast
qed

lemmas tree_eval = ascii_def isDigit_def literalValue_def smallInt_def number_eval

theorem calculate_grammatical_witness:
  "grammatical (Plus (Term (Factor (Number (ascii ''2'') None)))
                 (Times (Factor (Number (ascii ''2'') None)) (Number (ascii ''2'') None))) \<and>
   sanitize (ascii ''2 + 2 * 2'') =
     text_of (Plus (Term (Factor (Number (ascii ''2'') None)))
                (Times (Factor (Number (ascii ''2'') None)) (Number (ascii ''2'') None))) \<and>
   float_value (Plus (Term (Factor (Number (ascii ''2'') None)))
                  (Times (Factor (Number (ascii ''2'') None)) (Number (ascii ''2'') None))) =
     Inr (Finite False 6) \<and>
   integral (Plus (Term (Factor (Number (ascii ''2'') None)))
               (Times (Factor (Number (ascii ''2'') None)) (Number (ascii ''2'') None))) \<and>
   calculate (ascii ''2 + 2 * 2'') = \<lparr>result = Some (Finite False 6), error = None\<rparr> \<and>
   exact (Plus (Term (Factor (Number (ascii ''2'') None)))
            (Times (Factor (Number (ascii ''2'') None)) (Number (ascii ''2'') None))) =
     Some (valueOf (Finite False 6)) \<and>
   sanitize (ascii ''(2 + 3) * 4'') =
     text_of (Term (Times
       (Factor (Parens (Plus (Term (Factor (Number (ascii ''2'') None)))
                          (Factor (Number (ascii ''3'') None)))))
       (Number (ascii ''4'') None))) \<and>
   calculate (ascii ''(2 + 3) * 4'') = \<lparr>result = Some (Finite False 20), error = None\<rparr>"
proof -
  define e1 where "e1 = Plus (Term (Factor (Number (ascii ''2'') None)))
      (Times (Factor (Number (ascii ''2'') None)) (Number (ascii ''2'') None))"
  define e2 where "e2 = Term (Times
      (Factor (Parens (Plus (Term (Factor (Number (ascii ''2'') None)))
                         (Factor (Number (ascii ''3'') None)))))
      (Number (ascii ''4'') None))"
  have a1: "grammatical e1" "sanitize (ascii ''2 + 2 * 2'') = text_of e1"
    "length (text_of e1) \<le> 100" "\<not> sublist (ascii ''/0'') (text_of e1)"
    by (simp_all add: e1_def string_eval sublist_Cons_right)
  have b1: "float_value e1 = Inr (Finite False 6)" "integral e1"
    by (simp_all add: e1_def tree_eval)
  have a2: "grammatical e2" "sanitize (ascii ''(2 + 3) * 4'') = text_of e2"
    "length (text_of e2) \<le> 100" "\<not> sublist (ascii ''/0'') (text_of e2)"
    by (simp_all add: e2_def string_eval sublist_Cons_right)
  have b2: "float_value e2 = Inr (Finite False 20)"
    by (simp add: e2_def tree_eval)
  have f: "formatResult (Finite False 6) = Some (Finite False 6)"
    "formatResult (Finite False 20) = Some (Finite False 20)"
    by (simp_all add: formatResult_def)
  have c1: "calculate (ascii ''2 + 2 * 2'') = \<lparr>result = Some (Finite False 6), error = None\<rparr>"
    using calculate_grammatical [OF a1, of "Finite False 6"] b1(1) by (simp add: f)
  have "\<exists>w. calculate (ascii ''2 + 2 * 2'') = \<lparr>result = Some w, error = None\<rparr> \<and> isFinite w \<and>
      exact e1 = Some (valueOf w)"
    using calculate_grammatical [OF a1] b1(2) by blast
  with c1 have x1: "exact e1 = Some (valueOf (Finite False 6))"
    by auto
  have c2: "calculate (ascii ''(2 + 3) * 4'') = \<lparr>result = Some (Finite False 20), error = None\<rparr>"
    using calculate_grammatical [OF a2, of "Finite False 20"] b2 by (simp add: f)
  show ?thesis
    using a1(1,2) b1 c1 x1 a2(2) c2 unfolding e1_def e2_def by blast
qed

end
